theory Spec2Isabelle
  imports Main "HOL-Library.Char_ord" "HOL-Library.List_Lexorder" "HOL-Library.Multiset"
    "HOL-Library.Sublist"
begin

section \<open>Python values, objects and the heap\<close>

text \<open>
  The embedding of \<^verbatim>\<open>src/core/settings.py\<close>. Every Python object that can be mutated or
  shared (a \<^verbatim>\<open>Settings\<close> instance, a plain \<^verbatim>\<open>dict\<close>, a \<^verbatim>\<open>list\<close>) lives in a heap and is
  referred to by its address; a new object gets the next free address. Keys are \<^verbatim>\<open>str\<close>,
  \<^verbatim>\<open>ig\<close> (the case-insensitive \<^verbatim>\<open>str\<close> subclass of the module) or \<^verbatim>\<open>int\<close>; strings are
  ASCII. Scalars are \<^verbatim>\<open>None\<close>, integers and strings.
\<close>

type_synonym addr = nat

datatype key = KStr string | KIg string | KInt int

datatype val = VNone | VInt int | VStr string | VRef addr

datatype obj = Settings "(key \<times> val) list" | Dict "(key \<times> val) list" | PyList "val list"

type_synonym heap = "obj list"

datatype error =
  AttributeError | KeyError | TypeError | IndexError | RuntimeError | RecursionError | DanglingRef

text \<open>
  A raised exception is \<open>Inl\<close>; \<open>ebind\<close> passes it on. \<open>RecursionError\<close> is what Python raises
  when the nesting of calls exceeds the interpreter's limit: the recursive methods take the
  remaining depth as their first argument. \<open>DanglingRef\<close> is an address outside the heap,
  which no Python program produces.
\<close>

definition ebind :: "error + 'a \<Rightarrow> ('a \<Rightarrow> error + 'b) \<Rightarrow> error + 'b" where
  "ebind m f = (case m of Inl e \<Rightarrow> Inl e | Inr x \<Rightarrow> f x)"

definition alloc :: "heap \<Rightarrow> obj \<Rightarrow> addr \<times> heap" where
  "alloc h ob = (length h, h @ [ob])"

definition isinstance_dict :: "heap \<Rightarrow> val \<Rightarrow> bool" where
  "isinstance_dict h v =
     (case v of
        VRef a \<Rightarrow> a < length h \<and> (case h ! a of Settings _ \<Rightarrow> True | Dict _ \<Rightarrow> True | PyList _ \<Rightarrow> False)
      | _ \<Rightarrow> False)"

definition isinstance_Settings :: "heap \<Rightarrow> val \<Rightarrow> bool" where
  "isinstance_Settings h v =
     (case v of
        VRef a \<Rightarrow> a < length h \<and> (case h ! a of Settings _ \<Rightarrow> True | _ \<Rightarrow> False)
      | _ \<Rightarrow> False)"

definition isinstance_list :: "heap \<Rightarrow> val \<Rightarrow> bool" where
  "isinstance_list h v =
     (case v of
        VRef a \<Rightarrow> a < length h \<and> (case h ! a of PyList _ \<Rightarrow> True | _ \<Rightarrow> False)
      | _ \<Rightarrow> False)"

text \<open>The entries of the \<^verbatim>\<open>Settings\<close> instance a method is called on, in insertion order.\<close>

definition items_of :: "heap \<Rightarrow> addr \<Rightarrow> error + (key \<times> val) list" where
  "items_of h a =
     (if a < length h
      then (case h ! a of Settings kvs \<Rightarrow> Inr kvs | _ \<Rightarrow> Inl TypeError)
      else Inl DanglingRef)"

section \<open>Strings and keys\<close>

definition lower_char :: "char \<Rightarrow> char" where
  "lower_char c = (if CHR ''A'' \<le> c \<and> c \<le> CHR ''Z'' then char_of (of_char c + (32::nat)) else c)"

definition lower :: "string \<Rightarrow> string" where
  "lower s = map lower_char s"

definition startswith :: "string \<Rightarrow> string \<Rightarrow> bool" where
  "startswith s p = (take (length p) s = p)"

definition endswith :: "string \<Rightarrow> string \<Rightarrow> bool" where
  "endswith s p = (length p \<le> length s \<and> drop (length s - length p) s = p)"

fun digits :: "nat \<Rightarrow> string" where
  "digits n = (if n < 10 then [char_of (48 + n)] else digits (n div 10) @ [char_of (48 + n mod 10)])"

declare digits.simps [simp del]

definition str_int :: "int \<Rightarrow> string" where
  "str_int i = (if i < 0 then CHR ''-'' # digits (nat (- i)) else digits (nat i))"

text \<open>\<^verbatim>\<open>str(k)\<close>, \<^verbatim>\<open>isinstance(k, str)\<close>, \<^verbatim>\<open>isinstance(k, ig)\<close> and \<^verbatim>\<open>k.lower()\<close> of a key.\<close>

fun str_key :: "key \<Rightarrow> string" where
  "str_key (KStr s) = s"
| "str_key (KIg s) = s"
| "str_key (KInt i) = str_int i"

fun is_str :: "key \<Rightarrow> bool" where
  "is_str (KStr s) = True"
| "is_str (KIg s) = True"
| "is_str (KInt i) = False"

fun is_ig :: "key \<Rightarrow> bool" where
  "is_ig (KIg s) = True"
| "is_ig k = False"

fun int_key :: "key \<Rightarrow> int" where
  "int_key (KInt i) = i"
| "int_key k = 0"

fun key_lower :: "key \<Rightarrow> error + string" where
  "key_lower (KStr s) = Inr (lower s)"
| "key_lower (KIg s) = Inr (lower s)"
| "key_lower (KInt i) = Inl AttributeError"

text \<open>
  An \<^verbatim>\<open>ig\<close> string compares and hashes as the \<^verbatim>\<open>str\<close> it wraps, so a dictionary takes the
  two for the same key; \<open>plain\<close> is that \<^verbatim>\<open>str\<close>.
\<close>

fun plain :: "key \<Rightarrow> key" where
  "plain (KIg s) = KStr s"
| "plain k = k"

definition key_eq :: "key \<Rightarrow> key \<Rightarrow> bool" where
  "key_eq a b = (plain a = plain b)"

section \<open>The built-in dictionary\<close>

text \<open>
  \<^verbatim>\<open>dict.__getitem__\<close>, \<^verbatim>\<open>dict.__contains__\<close>, \<^verbatim>\<open>dict.__setitem__\<close> and \<^verbatim>\<open>dict.__delitem__\<close> on
  the entries in insertion order. Assigning to a present key keeps the stored key object and
  its position; a new key goes to the end.
\<close>

fun dict_get :: "(key \<times> val) list \<Rightarrow> key \<Rightarrow> val option" where
  "dict_get [] k = None"
| "dict_get ((k', v) # kvs) k = (if key_eq k' k then Some v else dict_get kvs k)"

definition dict_has :: "(key \<times> val) list \<Rightarrow> key \<Rightarrow> bool" where
  "dict_has kvs k = (dict_get kvs k \<noteq> None)"

fun dict_set :: "(key \<times> val) list \<Rightarrow> key \<Rightarrow> val \<Rightarrow> (key \<times> val) list" where
  "dict_set [] k v = [(k, v)]"
| "dict_set ((k', v') # kvs) k v =
     (if key_eq k' k then (k', v) # kvs else (k', v') # dict_set kvs k v)"

fun dict_del :: "(key \<times> val) list \<Rightarrow> key \<Rightarrow> error + (key \<times> val) list" where
  "dict_del [] k = Inl KeyError"
| "dict_del ((k', v') # kvs) k =
     (if key_eq k' k then Inr kvs
      else (case dict_del kvs k of Inl e \<Rightarrow> Inl e | Inr r \<Rightarrow> Inr ((k', v') # r)))"

section \<open>Iteration and case-insensitive resolution\<close>

text \<open>
  \<^verbatim>\<open>sorted(self.keys())\<close> compares the keys directly: strings by code points, integers by
  value; a \<^verbatim>\<open>str\<close> against an \<^verbatim>\<open>int\<close> raises \<^verbatim>\<open>TypeError\<close> (here \<open>None\<close>), which any sort of
  a list holding both must run into. \<^verbatim>\<open>__iter__\<close> then sorts by \<^verbatim>\<open>str\<close>; \<^verbatim>\<open>sorted\<close> is stable,
  as \<open>sort_key\<close> is.
\<close>

definition sorted_native :: "key list \<Rightarrow> key list option" where
  "sorted_native ks =
     (if list_all is_str ks then Some (sort_key str_key ks)
      else if list_all (\<lambda>k. \<not> is_str k) ks then Some (sort_key int_key ks)
      else None)"

definition iter :: "(key \<times> val) list \<Rightarrow> key list" where
  "iter kvs =
     (case sorted_native (map fst kvs) of
        Some ks \<Rightarrow> ks
      | None \<Rightarrow> sort_key str_key (map fst kvs))"

fun find_loop :: "key list \<Rightarrow> string \<Rightarrow> key \<Rightarrow> error + key" where
  "find_loop [] lowkey key = Inr key"
| "find_loop (k # ks) lowkey key =
     (case key_lower k of
        Inl e \<Rightarrow> Inl e
      | Inr l \<Rightarrow> if l = lowkey then Inr k else find_loop ks lowkey key)"

definition find_case :: "(key \<times> val) list \<Rightarrow> key \<Rightarrow> error + key" where
  "find_case kvs key = ebind (key_lower key) (\<lambda>lowkey. find_loop (iter kvs) lowkey key)"

text \<open>The opening of every item method: \<^verbatim>\<open>if isinstance(name, ig): name = self.find_case(name)\<close>.\<close>

definition resolve :: "(key \<times> val) list \<Rightarrow> key \<Rightarrow> error + key" where
  "resolve kvs name = (if is_ig name then find_case kvs name else Inr name)"

section \<open>The methods of Settings\<close>

fun for_each :: "('a \<Rightarrow> heap \<Rightarrow> error + heap) \<Rightarrow> 'a list \<Rightarrow> heap \<Rightarrow> error + heap" where
  "for_each f [] h = Inr h"
| "for_each f (x # xs) h = (case f x h of Inl e \<Rightarrow> Inl e | Inr h' \<Rightarrow> for_each f xs h')"

definition contains :: "heap \<Rightarrow> addr \<Rightarrow> key \<Rightarrow> error + bool" where
  "contains h self name =
     ebind (items_of h self) (\<lambda>kvs.
     ebind (resolve kvs name) (\<lambda>name'.
     Inr (dict_has kvs name')))"

text \<open>
  \<^verbatim>\<open>dict.__init__(self, *args)\<close> with no argument or with one mapping: the new dictionary has
  the mapping's entries in their order.
\<close>

definition dict_init :: "heap \<Rightarrow> val option \<Rightarrow> error + (key \<times> val) list" where
  "dict_init h src =
     (case src of
        None \<Rightarrow> Inr []
      | Some (VRef a) \<Rightarrow>
          (if a < length h
           then (case h ! a of Settings kvs \<Rightarrow> Inr kvs | Dict kvs \<Rightarrow> Inr kvs | PyList _ \<Rightarrow> Inl TypeError)
           else Inl DanglingRef)
      | Some _ \<Rightarrow> Inl TypeError)"

text \<open>
  \<^verbatim>\<open>Settings(value) if isinstance(value, dict) else value\<close>, as \<^verbatim>\<open>__setitem__\<close> and the list
  comprehension of \<^verbatim>\<open>__init__\<close> have it; the constructor is a parameter (\<^verbatim>\<open>__init__\<close> and
  \<^verbatim>\<open>__setitem__\<close> call each other). \<^verbatim>\<open>Settings\<close> is a subclass of \<^verbatim>\<open>dict\<close>, so a \<^verbatim>\<open>Settings\<close>
  value is wrapped again.
\<close>

definition wrap ::
  "(heap \<Rightarrow> val option \<Rightarrow> error + (addr \<times> heap)) \<Rightarrow> heap \<Rightarrow> val \<Rightarrow> error + (val \<times> heap)" where
  "wrap ctor h value =
     (if isinstance_dict h value
      then ebind (ctor h (Some value)) (\<lambda>(s, h'). Inr (VRef s, h'))
      else Inr (value, h))"

definition setitem_with ::
  "(heap \<Rightarrow> val option \<Rightarrow> error + (addr \<times> heap)) \<Rightarrow> heap \<Rightarrow> addr \<Rightarrow> key \<Rightarrow> val \<Rightarrow> error + heap" where
  "setitem_with ctor h self name value =
     ebind (items_of h self) (\<lambda>kvs.
     ebind (resolve kvs name) (\<lambda>name'.
     ebind (wrap ctor h value) (\<lambda>(value', h1).
     ebind (items_of h1 self) (\<lambda>kvs1.
     Inr (h1[self := Settings (dict_set kvs1 name' value')])))))"

fun wrap_elems ::
  "(heap \<Rightarrow> val option \<Rightarrow> error + (addr \<times> heap)) \<Rightarrow> val list \<Rightarrow> heap \<Rightarrow> error + (val list \<times> heap)" where
  "wrap_elems ctor [] h = Inr ([], h)"
| "wrap_elems ctor (x # xs) h =
     (case wrap ctor h x of
        Inl e \<Rightarrow> Inl e
      | Inr (y, h1) \<Rightarrow>
          (case wrap_elems ctor xs h1 of
             Inl e \<Rightarrow> Inl e
           | Inr (ys, h2) \<Rightarrow> Inr (y # ys, h2)))"

text \<open>
  One round of the loop of \<^verbatim>\<open>__init__\<close>, \<^verbatim>\<open>for k, v in self.items()\<close>: the view is live, so
  the \<open>i\<close>-th round reads the \<open>i\<close>-th entry as it is then. The two \<^verbatim>\<open>if\<close>s follow each other.
\<close>

definition init_item ::
  "(heap \<Rightarrow> val option \<Rightarrow> error + (addr \<times> heap)) \<Rightarrow> addr \<Rightarrow> nat \<Rightarrow> heap \<Rightarrow> error + heap" where
  "init_item ctor self i h =
     ebind (items_of h self) (\<lambda>kvs.
     if length kvs \<le> i then Inl RuntimeError
     else
       let (k, v) = kvs ! i in
       ebind (if isinstance_dict h v
              then ebind (ctor h (Some v)) (\<lambda>(s, h'). setitem_with ctor h' self k (VRef s))
              else Inr h) (\<lambda>h1.
       if isinstance_list h1 v
       then (case h1 ! (case v of VRef a \<Rightarrow> a | _ \<Rightarrow> 0) of
               PyList xs \<Rightarrow>
                 ebind (wrap_elems ctor xs h1) (\<lambda>(ys, h2).
                 let (l, h3) = alloc h2 (PyList ys) in
                 setitem_with ctor h3 self k (VRef l))
             | _ \<Rightarrow> Inl TypeError)
       else Inr h1))"

primrec Settings_init :: "nat \<Rightarrow> heap \<Rightarrow> val option \<Rightarrow> error + (addr \<times> heap)" where
  "Settings_init 0 h src = Inl RecursionError"
| "Settings_init (Suc n) h src =
     ebind (dict_init h src) (\<lambda>kvs.
     let (self, h0) = alloc h (Settings kvs) in
     ebind (for_each (init_item (Settings_init n) self) [0..<length kvs] h0) (\<lambda>h1.
     Inr (self, h1)))"

definition setitem :: "nat \<Rightarrow> heap \<Rightarrow> addr \<Rightarrow> key \<Rightarrow> val \<Rightarrow> error + heap" where
  "setitem n = setitem_with (Settings_init n)"

text \<open>\<^verbatim>\<open>__getitem__\<close>; a missing key goes to \<^verbatim>\<open>__missing__\<close>, which binds a new node and reads it.\<close>

primrec getitem :: "nat \<Rightarrow> heap \<Rightarrow> addr \<Rightarrow> key \<Rightarrow> error + (val \<times> heap)" where
  "getitem 0 h self name = Inl RecursionError"
| "getitem (Suc n) h self name =
     ebind (items_of h self) (\<lambda>kvs.
     ebind (resolve kvs name) (\<lambda>name'.
     case dict_get kvs name' of
       Some v \<Rightarrow> Inr (v, h)
     | None \<Rightarrow>
         ebind (Settings_init n h None) (\<lambda>(s, h1).
         ebind (setitem n h1 self name' (VRef s)) (\<lambda>h2.
         getitem n h2 self name'))))"

definition delitem :: "heap \<Rightarrow> addr \<Rightarrow> key \<Rightarrow> error + heap" where
  "delitem h self name =
     ebind (items_of h self) (\<lambda>kvs.
     ebind (resolve kvs name) (\<lambda>name'.
     ebind (dict_del kvs name') (\<lambda>kvs'.
     Inr (h[self := Settings kvs']))))"

text \<open>
  \<^verbatim>\<open>for name in other\<close> and \<^verbatim>\<open>other[name]\<close> for the argument of \<^verbatim>\<open>soft_update\<close> and \<^verbatim>\<open>update\<close>,
  and \<^verbatim>\<open>s[i]\<close>, \<^verbatim>\<open>s[i] = value\<close> of the nested accessors: the object decides. A \<^verbatim>\<open>Settings\<close>
  iterates its sorted keys, a plain \<^verbatim>\<open>dict\<close> its keys in insertion order.
\<close>

definition iterate :: "heap \<Rightarrow> val \<Rightarrow> error + key list" where
  "iterate h v =
     (case v of
        VRef a \<Rightarrow>
          (if a < length h
           then (case h ! a of
                   Settings kvs \<Rightarrow> Inr (iter kvs)
                 | Dict kvs \<Rightarrow> Inr (map fst kvs)
                 | PyList _ \<Rightarrow> Inl TypeError)
           else Inl DanglingRef)
      | _ \<Rightarrow> Inl TypeError)"

definition py_index :: "'a list \<Rightarrow> int \<Rightarrow> error + nat" where
  "py_index xs i =
     (if 0 \<le> i \<and> i < int (length xs) then Inr (nat i)
      else if i < 0 \<and> - int (length xs) \<le> i then Inr (nat (int (length xs) + i))
      else Inl IndexError)"

definition subscript :: "nat \<Rightarrow> heap \<Rightarrow> val \<Rightarrow> key \<Rightarrow> error + (val \<times> heap)" where
  "subscript n h v name =
     (case v of
        VRef a \<Rightarrow>
          (if a < length h
           then (case h ! a of
                   Settings _ \<Rightarrow> getitem n h a name
                 | Dict kvs \<Rightarrow> (case dict_get kvs name of Some x \<Rightarrow> Inr (x, h) | None \<Rightarrow> Inl KeyError)
                 | PyList xs \<Rightarrow>
                     (case name of
                        KInt i \<Rightarrow> ebind (py_index xs i) (\<lambda>j. Inr (xs ! j, h))
                      | _ \<Rightarrow> Inl TypeError))
           else Inl DanglingRef)
      | VStr s \<Rightarrow>
          (case name of
             KInt i \<Rightarrow> ebind (py_index s i) (\<lambda>j. Inr (VStr [s ! j], h))
           | _ \<Rightarrow> Inl TypeError)
      | _ \<Rightarrow> Inl TypeError)"

definition store :: "nat \<Rightarrow> heap \<Rightarrow> val \<Rightarrow> key \<Rightarrow> val \<Rightarrow> error + heap" where
  "store n h v name value =
     (case v of
        VRef a \<Rightarrow>
          (if a < length h
           then (case h ! a of
                   Settings _ \<Rightarrow> setitem n h a name value
                 | Dict kvs \<Rightarrow> Inr (h[a := Dict (dict_set kvs name value)])
                 | PyList xs \<Rightarrow>
                     (case name of
                        KInt i \<Rightarrow> ebind (py_index xs i) (\<lambda>j. Inr (h[a := PyList (xs[j := value])]))
                      | _ \<Rightarrow> Inl TypeError))
           else Inl DanglingRef)
      | _ \<Rightarrow> Inl TypeError)"

text \<open>
  One round of the loop of \<^verbatim>\<open>copy\<close>; \<open>rec\<close> is \<^verbatim>\<open>copy\<close> itself, one call deeper. The source
  reads \<^verbatim>\<open>self[name]\<close> twice.
\<close>

definition copy_item ::
  "nat \<Rightarrow> (heap \<Rightarrow> addr \<Rightarrow> error + (addr \<times> heap)) \<Rightarrow> addr \<Rightarrow> addr \<Rightarrow> key \<Rightarrow> heap \<Rightarrow> error + heap" where
  "copy_item n rec self ret name h =
     ebind (getitem n h self name) (\<lambda>(v, h1).
     if isinstance_Settings h1 v
     then
       ebind (getitem n h1 self name) (\<lambda>(v2, h2).
       ebind (case v2 of VRef a \<Rightarrow> rec h2 a | _ \<Rightarrow> Inl AttributeError) (\<lambda>(c, h3).
       setitem n h3 ret name (VRef c)))
     else
       ebind (getitem n h1 self name) (\<lambda>(v2, h2).
       setitem n h2 ret name v2))"

primrec copy :: "nat \<Rightarrow> heap \<Rightarrow> addr \<Rightarrow> error + (addr \<times> heap)" where
  "copy 0 h self = Inl RecursionError"
| "copy (Suc n) h self =
     ebind (Settings_init n h None) (\<lambda>(ret, h0).
     ebind (items_of h0 self) (\<lambda>kvs.
     ebind (for_each (copy_item n (copy n) self ret) (iter kvs) h0) (\<lambda>h1.
     Inr (ret, h1))))"

text \<open>\<^verbatim>\<open>other[name].copy()\<close>: the value is a \<^verbatim>\<open>Settings\<close> where the source calls it.\<close>

definition call_copy :: "nat \<Rightarrow> heap \<Rightarrow> val \<Rightarrow> error + (addr \<times> heap)" where
  "call_copy n h v = (case v of VRef a \<Rightarrow> copy n h a | _ \<Rightarrow> Inl AttributeError)"

text \<open>One round of the loop of \<^verbatim>\<open>soft_update\<close>; \<open>rec\<close> is \<^verbatim>\<open>soft_update\<close>, one call deeper.\<close>

definition soft_item ::
  "nat \<Rightarrow> (heap \<Rightarrow> addr \<Rightarrow> val \<Rightarrow> error + (addr \<times> heap)) \<Rightarrow> addr \<Rightarrow> val \<Rightarrow> key \<Rightarrow> heap \<Rightarrow> error + heap" where
  "soft_item n rec self other name h =
     ebind (subscript n h other name) (\<lambda>(ov, h1).
     if isinstance_Settings h1 ov
     then
       ebind (contains h1 self name) (\<lambda>b.
       if \<not> b
       then
         ebind (subscript n h1 other name) (\<lambda>(ov2, h2).
         ebind (call_copy n h2 ov2) (\<lambda>(c, h3).
         setitem n h3 self name (VRef c)))
       else
         ebind (getitem n h1 self name) (\<lambda>(sv, h2).
         if isinstance_Settings h2 sv
         then
           ebind (getitem n h2 self name) (\<lambda>(sv2, h3).
           ebind (subscript n h3 other name) (\<lambda>(ov2, h4).
           ebind (case sv2 of VRef a \<Rightarrow> rec h4 a ov2 | _ \<Rightarrow> Inl AttributeError) (\<lambda>(r, h5).
           Inr h5)))
         else Inr h2))
     else
       ebind (contains h1 self name) (\<lambda>b.
       if \<not> b
       then ebind (subscript n h1 other name) (\<lambda>(ov2, h2). setitem n h2 self name ov2)
       else Inr h1))"

primrec soft_update :: "nat \<Rightarrow> heap \<Rightarrow> addr \<Rightarrow> val \<Rightarrow> error + (addr \<times> heap)" where
  "soft_update 0 h self other = Inl RecursionError"
| "soft_update (Suc n) h self other =
     ebind (iterate h other) (\<lambda>names.
     ebind (for_each (soft_item n (soft_update n) self other) names h) (\<lambda>h1.
     Inr (self, h1)))"

text \<open>One round of the loop of \<^verbatim>\<open>update\<close>; \<^verbatim>\<open>or\<close> evaluates its second operand only if needed.\<close>

definition update_item ::
  "nat \<Rightarrow> (heap \<Rightarrow> addr \<Rightarrow> val \<Rightarrow> error + heap) \<Rightarrow> addr \<Rightarrow> val \<Rightarrow> key \<Rightarrow> heap \<Rightarrow> error + heap" where
  "update_item n rec self other name h =
     ebind (subscript n h other name) (\<lambda>(ov, h1).
     if isinstance_Settings h1 ov
     then
       ebind (contains h1 self name) (\<lambda>b.
       ebind (if \<not> b then Inr (True, h1)
              else ebind (getitem n h1 self name) (\<lambda>(sv, h2). Inr (\<not> isinstance_Settings h2 sv, h2))) (\<lambda>(c, h2).
       if c
       then
         ebind (subscript n h2 other name) (\<lambda>(ov2, h3).
         ebind (call_copy n h3 ov2) (\<lambda>(c, h4).
         setitem n h4 self name (VRef c)))
       else
         ebind (getitem n h2 self name) (\<lambda>(sv2, h3).
         ebind (subscript n h3 other name) (\<lambda>(ov2, h4).
         case sv2 of VRef a \<Rightarrow> rec h4 a ov2 | _ \<Rightarrow> Inl AttributeError))))
     else
       ebind (subscript n h1 other name) (\<lambda>(ov2, h2). setitem n h2 self name ov2))"

primrec update :: "nat \<Rightarrow> heap \<Rightarrow> addr \<Rightarrow> val \<Rightarrow> error + heap" where
  "update 0 h self other = Inl RecursionError"
| "update (Suc n) h self other =
     ebind (iterate h other) (\<lambda>names.
     for_each (update_item n (update n) self other) names h)"

definition merge :: "nat \<Rightarrow> heap \<Rightarrow> addr \<Rightarrow> val \<Rightarrow> error + (addr \<times> heap)" where
  "merge n h self other =
     ebind (copy n h self) (\<lambda>(ret, h1).
     ebind (soft_update n h1 ret other) (\<lambda>(r, h2).
     Inr (ret, h2)))"

fun get_nested :: "nat \<Rightarrow> heap \<Rightarrow> val \<Rightarrow> key list \<Rightarrow> error + (val \<times> heap)" where
  "get_nested n h s [] = Inr (s, h)"
| "get_nested n h s (i # key_tuple) =
     (case subscript n h s i of
        Inl e \<Rightarrow> Inl e
      | Inr (s', h') \<Rightarrow> get_nested n h' s' key_tuple)"

definition set_nested :: "nat \<Rightarrow> heap \<Rightarrow> val \<Rightarrow> key list \<Rightarrow> val \<Rightarrow> error + heap" where
  "set_nested n h s key_tuple value =
     ebind (get_nested n h s (butlast key_tuple)) (\<lambda>(s', h1).
     if key_tuple = [] then Inl IndexError
     else store n h1 s' (last key_tuple) value)"

section \<open>Attribute access\<close>

text \<open>
  \<^verbatim>\<open>__getattr__\<close>, \<^verbatim>\<open>__setattr__\<close> and \<^verbatim>\<open>__delattr__\<close>. The attributes an instance owns (its
  \<^verbatim>\<open>__dict__\<close>) are kept beside the heap, one association list per address; they are what
  \<^verbatim>\<open>dict.__getattribute__\<close>, \<^verbatim>\<open>dict.__setattr__\<close> and \<^verbatim>\<open>dict.__delattr__\<close> work on. Attributes of
  the class are outside the model. In \<^verbatim>\<open>__setattr__\<close> and \<^verbatim>\<open>__delattr__\<close> the branch for a name
  with the two markers does not return, so the item statement after it runs as well.
\<close>

type_synonym idict = "addr \<Rightarrow> (string \<times> val) list"

definition dunder :: "string \<Rightarrow> bool" where
  "dunder name = (startswith name ''__'' \<and> endswith name ''__'')"

definition object_getattribute :: "idict \<Rightarrow> addr \<Rightarrow> string \<Rightarrow> error + val" where
  "object_getattribute d self name =
     (case map_of (d self) name of Some v \<Rightarrow> Inr v | None \<Rightarrow> Inl AttributeError)"

definition object_setattr :: "idict \<Rightarrow> addr \<Rightarrow> string \<Rightarrow> val \<Rightarrow> idict" where
  "object_setattr d self name value =
     d(self := (name, value) # filter (\<lambda>(n, v). n \<noteq> name) (d self))"

definition object_delattr :: "idict \<Rightarrow> addr \<Rightarrow> string \<Rightarrow> error + idict" where
  "object_delattr d self name =
     (case map_of (d self) name of
        Some v \<Rightarrow> Inr (d(self := filter (\<lambda>(n, v). n \<noteq> name) (d self)))
      | None \<Rightarrow> Inl AttributeError)"

definition getattr :: "nat \<Rightarrow> idict \<Rightarrow> heap \<Rightarrow> addr \<Rightarrow> string \<Rightarrow> error + (val \<times> heap)" where
  "getattr n d h self name =
     (if dunder name
      then ebind (object_getattribute d self name) (\<lambda>v. Inr (v, h))
      else getitem n h self (KStr name))"

definition setattr :: "nat \<Rightarrow> idict \<Rightarrow> heap \<Rightarrow> addr \<Rightarrow> string \<Rightarrow> val \<Rightarrow> error + (idict \<times> heap)" where
  "setattr n d h self name value =
     (let d' = (if dunder name then object_setattr d self name value else d)
      in ebind (setitem n h self (KStr name) value) (\<lambda>h'. Inr (d', h')))"

definition delattr :: "idict \<Rightarrow> heap \<Rightarrow> addr \<Rightarrow> string \<Rightarrow> error + (idict \<times> heap)" where
  "delattr d h self name =
     ebind (if dunder name then object_delattr d self name else Inr d) (\<lambda>d'.
     ebind (delitem h self (KStr name)) (\<lambda>h'.
     Inr (d', h')))"

section \<open>What a caller does to a list it holds\<close>

text \<open>\<^verbatim>\<open>l.append(x)\<close> of the built-in list: the object at the address changes, for every holder.\<close>

definition list_append :: "heap \<Rightarrow> val \<Rightarrow> val \<Rightarrow> error + heap" where
  "list_append h l x =
     (case l of
        VRef a \<Rightarrow>
          (if a < length h
           then (case h ! a of PyList xs \<Rightarrow> Inr (h[a := PyList (xs @ [x])]) | _ \<Rightarrow> Inl AttributeError)
           else Inl DanglingRef)
      | _ \<Rightarrow> Inl AttributeError)"

section \<open>Relations between heaps\<close>

text \<open>
  \<open>prefix h h'\<close>: every object of \<open>h\<close> is in \<open>h'\<close> as it was, and \<open>h'\<close> may hold new ones.
  \<open>heap_ext h h'\<close>: every list and plain dictionary of \<open>h\<close> is in \<open>h'\<close> as it was, and
  every \<^verbatim>\<open>Settings\<close> of \<open>h\<close> has in \<open>h'\<close> the entries it had, in their places with their
  values, followed by the entries it gained.
\<close>

fun obj_ext :: "obj \<Rightarrow> obj \<Rightarrow> bool" where
  "obj_ext (Settings kvs) ob = (case ob of Settings kvs' \<Rightarrow> prefix kvs kvs' | _ \<Rightarrow> False)"
| "obj_ext ob ob' = (ob' = ob)"

definition heap_ext :: "heap \<Rightarrow> heap \<Rightarrow> bool" where
  "heap_ext h h' = (length h \<le> length h' \<and> list_all2 obj_ext h (take (length h) h'))"

text \<open>What the proofs below ask of a constructor: it returns the next free address, where
  a \<^verbatim>\<open>Settings\<close> then is, and leaves the objects there were alone.\<close>

definition ctor_grows :: "(heap \<Rightarrow> val option \<Rightarrow> error + (addr \<times> heap)) \<Rightarrow> bool" where
  "ctor_grows ctor =
     (\<forall>g x s g'. ctor g x = Inr (s, g') \<longrightarrow>
        s = length g \<and> prefix g g' \<and> s < length g' \<and> (\<exists>kvs. g' ! s = Settings kvs))"

text \<open>A step that only allocates and assigns to the fresh node \<open>self\<close> keeps the objects of \<open>h0\<close>.\<close>

definition building :: "heap \<Rightarrow> addr \<Rightarrow> heap \<Rightarrow> bool" where
  "building h0 self g = (prefix h0 g \<and> length h0 \<le> self \<and> self < length g \<and> (\<exists>kvs. g ! self = Settings kvs))"



definition copy_grows :: "(heap \<Rightarrow> addr \<Rightarrow> error + (addr \<times> heap)) \<Rightarrow> bool" where
  "copy_grows rec =
     (\<forall>g a c g'. rec g a = Inr (c, g') \<longrightarrow>
        c = length g \<and> prefix g g' \<and> c < length g' \<and> (\<exists>kvs. g' ! c = Settings kvs))"

definition soft_grows :: "(heap \<Rightarrow> addr \<Rightarrow> val \<Rightarrow> error + (addr \<times> heap)) \<Rightarrow> bool" where
  "soft_grows rec = (\<forall>g a ob r g'. rec g a ob = Inr (r, g') \<longrightarrow> r = a \<and> heap_ext g g')"

section \<open>Well-formed dictionaries and what a call leaves behind\<close>

text \<open>
  The theorems on \<^verbatim>\<open>__init__\<close>, \<^verbatim>\<open>copy\<close> and \<^verbatim>\<open>update\<close> are about heaps in which the keys of
  every dictionary are pairwise different, as in any Python dictionary, and none of them is
  an \<^verbatim>\<open>ig\<close> instance.
\<close>

fun kind :: "obj \<Rightarrow> nat" where
  "kind (Settings kvs) = 0"
| "kind (Dict kvs) = 1"
| "kind (PyList xs) = 2"

definition keys_ok :: "(key \<times> val) list \<Rightarrow> bool" where
  "keys_ok kvs = (list_all (\<lambda>k. \<not> is_ig k) (map fst kvs) \<and> distinct (map fst kvs))"

fun obj_ok :: "obj \<Rightarrow> bool" where
  "obj_ok (Settings kvs) = keys_ok kvs"
| "obj_ok (Dict kvs) = keys_ok kvs"
| "obj_ok (PyList xs) = True"

definition heap_ok :: "heap \<Rightarrow> bool" where
  "heap_ok h = list_all obj_ok h"

text \<open>\<open>same_kinds h h'\<close>: the objects of \<open>h\<close> are in \<open>h'\<close> what they were (a node, a plain
  dictionary, a list), whatever they hold now.\<close>

definition same_kinds :: "heap \<Rightarrow> heap \<Rightarrow> bool" where
  "same_kinds h h' = (length h \<le> length h' \<and> (\<forall>b<length h. kind (h' ! b) = kind (h ! b)))"

text \<open>
  An object made by a call that started when the heap had \<open>n0\<close> objects is clean when it
  is not a plain dictionary and, if it is a node, every value of it that is a mapping or a
  list is itself such a new object and, if it is a list, every element of it that is a
  mapping is such a new object.
\<close>

definition val_new :: "nat \<Rightarrow> val \<Rightarrow> bool" where
  "val_new n0 v = (\<exists>c. v = VRef c \<and> n0 \<le> c)"

definition val_clean :: "nat \<Rightarrow> heap \<Rightarrow> val \<Rightarrow> bool" where
  "val_clean n0 h v = (isinstance_dict h v \<or> isinstance_list h v \<longrightarrow> val_new n0 v)"

definition elem_clean :: "nat \<Rightarrow> heap \<Rightarrow> val \<Rightarrow> bool" where
  "elem_clean n0 h v = (isinstance_dict h v \<longrightarrow> val_new n0 v)"

fun obj_clean :: "nat \<Rightarrow> heap \<Rightarrow> obj \<Rightarrow> bool" where
  "obj_clean n0 h (Settings kvs) = list_all (\<lambda>(k, v). val_clean n0 h v) kvs"
| "obj_clean n0 h (Dict kvs) = False"
| "obj_clean n0 h (PyList xs) = list_all (elem_clean n0 h) xs"

definition clean_from :: "nat \<Rightarrow> heap \<Rightarrow> bool" where
  "clean_from n0 h = (\<forall>b. n0 \<le> b \<and> b < length h \<longrightarrow> obj_clean n0 h (h ! b))"

definition ctor_clean :: "(heap \<Rightarrow> val option \<Rightarrow> error + (addr \<times> heap)) \<Rightarrow> bool" where
  "ctor_clean ctor =
     (\<forall>g x s g'. heap_ok g \<and> ctor g x = Inr (s, g') \<longrightarrow> heap_ok g' \<and> clean_from (length g) g')"

definition clean_above :: "nat \<Rightarrow> nat \<Rightarrow> heap \<Rightarrow> bool" where
  "clean_above n0 lo h = (\<forall>b. lo \<le> b \<and> b < length h \<longrightarrow> obj_clean n0 h (h ! b))"

text \<open>The state of the loop of \<^verbatim>\<open>__init__\<close> before its \<open>i\<close>-th round, for the call that started
  at heap \<open>h\<close> with the entries \<open>kvs0\<close>.\<close>

definition init_inv :: "heap \<Rightarrow> (key \<times> val) list \<Rightarrow> nat \<Rightarrow> heap \<Rightarrow> bool" where
  "init_inv h kvs0 i g =
     (building h (length h) g \<and> heap_ok g \<and> clean_above (length h) (Suc (length h)) g \<and>
      (\<exists>kvs. g ! length h = Settings kvs \<and> map fst kvs = map fst kvs0 \<and>
         (\<forall>j<i. val_clean (length h) g (snd (kvs ! j)))))"

section \<open>The tree under a node\<close>

text \<open>
  \<open>anywhere h r b\<close>: the object at \<open>b\<close> is the node at \<open>r\<close> or is reached from it through
  values of mappings and elements of lists. \<open>inside h r b\<close> is the same without the step
  from a list to a list in it, so without what lies in a sub-sequence: from a list only its
  elements that are mappings are followed.
\<close>

inductive anywhere :: "heap \<Rightarrow> addr \<Rightarrow> addr \<Rightarrow> bool" for h r where
  any_root: "anywhere h r r"
| any_value: "anywhere h r b \<Longrightarrow> b < length h \<Longrightarrow> h ! b = Settings kvs \<or> h ! b = Dict kvs \<Longrightarrow>
    VRef c \<in> snd ` set kvs \<Longrightarrow> c < length h \<Longrightarrow> anywhere h r c"
| any_element: "anywhere h r b \<Longrightarrow> b < length h \<Longrightarrow> h ! b = PyList xs \<Longrightarrow>
    VRef c \<in> set xs \<Longrightarrow> c < length h \<Longrightarrow> anywhere h r c"

inductive inside :: "heap \<Rightarrow> addr \<Rightarrow> addr \<Rightarrow> bool" for h r where
  in_root: "inside h r r"
| in_value: "inside h r b \<Longrightarrow> b < length h \<Longrightarrow> h ! b = Settings kvs \<or> h ! b = Dict kvs \<Longrightarrow>
    VRef c \<in> snd ` set kvs \<Longrightarrow> c < length h \<Longrightarrow> inside h r c"
| in_element: "inside h r b \<Longrightarrow> b < length h \<Longrightarrow> h ! b = PyList xs \<Longrightarrow>
    VRef c \<in> set xs \<Longrightarrow> isinstance_dict h (VRef c) \<Longrightarrow> inside h r c"

section \<open>What copy leaves behind, and the nodes under a node\<close>

text \<open>
  For \<^verbatim>\<open>copy\<close> the lists are left out: a new node is closed when every value of it that is a
  mapping is a new object. \<open>nodes h r b\<close>: the node at \<open>b\<close> is the node at \<open>r\<close> or a node
  nested in it, directly or through further nodes (the skeleton of the docstring of
  \<^verbatim>\<open>copy\<close>).
\<close>

fun obj_closed :: "nat \<Rightarrow> heap \<Rightarrow> obj \<Rightarrow> bool" where
  "obj_closed n0 h (Settings kvs) = list_all (\<lambda>(k, v). elem_clean n0 h v) kvs"
| "obj_closed n0 h (Dict kvs) = False"
| "obj_closed n0 h (PyList xs) = True"

definition closed_above :: "nat \<Rightarrow> nat \<Rightarrow> heap \<Rightarrow> bool" where
  "closed_above n0 lo h = (\<forall>b. lo \<le> b \<and> b < length h \<longrightarrow> obj_closed n0 h (h ! b))"

definition copy_closed :: "(heap \<Rightarrow> addr \<Rightarrow> error + (addr \<times> heap)) \<Rightarrow> bool" where
  "copy_closed rec =
     (\<forall>g a c g'. heap_ok g \<and> rec g a = Inr (c, g') \<longrightarrow> heap_ok g' \<and> closed_above (length g) (length g) g')"

text \<open>The value a copy holds for the value \<open>v\<close> of the original: a new node if \<open>v\<close> is a
  mapping, and \<open>v\<close> itself if not (for an address: one of the heap).\<close>

definition copied :: "heap \<Rightarrow> heap \<Rightarrow> val \<Rightarrow> val \<Rightarrow> bool" where
  "copied h g v v' =
     (if isinstance_dict h v then val_new (length h) v' \<and> isinstance_Settings g v'
      else (\<forall>c. v = VRef c \<longrightarrow> c < length h) \<longrightarrow> v' = v)"

text \<open>The state of the loop of \<^verbatim>\<open>copy\<close> after the rounds for the names \<open>ns\<close>.\<close>

definition copy_inv :: "heap \<Rightarrow> (key \<times> val) list \<Rightarrow> key list \<Rightarrow> heap \<Rightarrow> bool" where
  "copy_inv h kvs ns g =
     (building h (length h) g \<and> heap_ok g \<and> closed_above (length h) (Suc (length h)) g \<and>
      (\<exists>ents. g ! length h = Settings ents \<and> map fst ents = ns \<and>
         list_all (\<lambda>(k, v'). elem_clean (length h) g v') ents \<and>
         list_all (\<lambda>(k, v'). \<exists>v. dict_get kvs k = Some v \<and> copied h g v v') ents))"

inductive nodes :: "heap \<Rightarrow> addr \<Rightarrow> addr \<Rightarrow> bool" for h r where
  node_root: "nodes h r r"
| node_child: "nodes h r b \<Longrightarrow> b < length h \<Longrightarrow> h ! b = Settings kvs \<Longrightarrow>
    VRef c \<in> snd ` set kvs \<Longrightarrow> isinstance_Settings h (VRef c) \<Longrightarrow> nodes h r c"

section \<open>Basic facts\<close>

declare Settings_init.simps(2) [simp del] getitem.simps(2) [simp del] copy.simps(2) [simp del]
  soft_update.simps(2) [simp del] update.simps(2) [simp del]

lemma ebind_Inr [simp]: "ebind (Inr x) f = f x"
  by (simp add: ebind_def)

lemma ebind_Inl [simp]: "ebind (Inl e) f = Inl e"
  by (simp add: ebind_def)

lemma ebind_eq_Inr: "ebind m f = Inr y \<longleftrightarrow> (\<exists>x. m = Inr x \<and> f x = Inr y)"
  by (cases m) simp_all

lemma items_of_Inr: "items_of h a = Inr kvs \<longleftrightarrow> a < length h \<and> h ! a = Settings kvs"
  by (auto simp add: items_of_def split: obj.splits)


section \<open>Iteration order\<close>

lemma str_and_int_keys: "list_all is_str ks \<Longrightarrow> list_all (\<lambda>k. \<not> is_str k) ks \<Longrightarrow> ks = []"
  by (cases ks) auto

lemma mset_iter: "mset (iter kvs) = mset (map fst kvs)"
  by (auto simp add: iter_def sorted_native_def split: option.splits)

lemma set_iter: "set (iter kvs) = fst ` set kvs"
  using mset_iter [of kvs] by (metis mset_eq_setD set_map)

lemma iter_str: "list_all is_str (map fst kvs) \<Longrightarrow> sorted (map str_key (iter kvs))"
  by (simp add: iter_def sorted_native_def)

lemma iter_int: "list_all (\<lambda>k. \<not> is_str k) (map fst kvs) \<Longrightarrow> sorted (map int_key (iter kvs))"
  using str_and_int_keys [of "map fst kvs"] by (auto simp add: iter_def sorted_native_def)

lemma iter_mixed:
  "\<not> list_all is_str (map fst kvs) \<Longrightarrow> \<not> list_all (\<lambda>k. \<not> is_str k) (map fst kvs) \<Longrightarrow>
   sorted (map str_key (iter kvs))"
  by (auto simp add: iter_def sorted_native_def)

lemma sort_key_unique:
  assumes "mset xs = mset ys" "inj_on f (set xs)"
  shows "sort_key f xs = sort_key f ys"
  by (rule sort_key_inj_key_eq) (use assms in simp_all)

lemma plain_str: "is_str k \<Longrightarrow> plain k = KStr (str_key k)"
  by (cases k) auto

lemma plain_int: "\<not> is_str k \<Longrightarrow> plain k = KInt (int_key k)"
  by (cases k) auto

lemma inj_str_key:
  assumes "distinct (map plain ks)" "list_all is_str ks"
  shows "inj_on str_key (set ks)"
proof (rule inj_onI)
  fix a b assume ab: "a \<in> set ks" "b \<in> set ks" "str_key a = str_key b"
  with assms(2) have "plain a = plain b" by (simp add: list_all_iff plain_str)
  with assms(1) ab show "a = b" by (meson distinct_map inj_onD)
qed

lemma inj_int_key:
  assumes "distinct (map plain ks)" "list_all (\<lambda>k. \<not> is_str k) ks"
  shows "inj_on int_key (set ks)"
proof (rule inj_onI)
  fix a b assume ab: "a \<in> set ks" "b \<in> set ks" "int_key a = int_key b"
  with assms(2) have "plain a = plain b" by (simp add: list_all_iff plain_int)
  with assms(1) ab show "a = b" by (meson distinct_map inj_onD)
qed

lemma iter_insertion_order:
  assumes m: "mset (map fst kvs') = mset (map fst kvs)"
    and d: "distinct (map plain (map fst kvs))"
    and hom: "list_all is_str (map fst kvs) \<or> list_all (\<lambda>k. \<not> is_str k) (map fst kvs)"
  shows "iter kvs' = iter kvs"
proof -
  have s: "set (map fst kvs') = set (map fst kvs)" using m by (rule mset_eq_setD)
  have a1: "list_all is_str (map fst kvs') = list_all is_str (map fst kvs)"
    using s unfolding list_all_iff by simp
  have a2: "list_all (\<lambda>k. \<not> is_str k) (map fst kvs') = list_all (\<lambda>k. \<not> is_str k) (map fst kvs)"
    using s unfolding list_all_iff by simp
  from hom show ?thesis
  proof
    assume st: "list_all is_str (map fst kvs)"
    have "sort_key str_key (map fst kvs) = sort_key str_key (map fst kvs')"
      using m inj_str_key [OF d st] by (intro sort_key_unique) simp_all
    with st a1 show ?thesis by (simp add: iter_def sorted_native_def)
  next
    assume it: "list_all (\<lambda>k. \<not> is_str k) (map fst kvs)"
    have i: "sort_key int_key (map fst kvs) = sort_key int_key (map fst kvs')"
      using m inj_int_key [OF d it] by (intro sort_key_unique) simp_all
    have s: "sort_key str_key (map fst kvs) = sort_key str_key (map fst kvs')"
      if "list_all is_str (map fst kvs)"
      using str_and_int_keys [OF that it] m by simp
    with it a1 a2 i show ?thesis by (auto simp add: iter_def sorted_native_def)
  qed
qed


lemma key_lower_str: "is_str k \<Longrightarrow> key_lower k = Inr (lower (str_key k))"
  by (cases k) auto

lemma key_lower_Inr: "key_lower k = Inr l \<Longrightarrow> is_str k \<and> l = lower (str_key k)"
  by (cases k) auto

lemma find_loop_strs:
  "list_all is_str ks \<Longrightarrow>
   find_loop ks low key = Inr (case find (\<lambda>k. lower (str_key k) = low) ks of Some k \<Rightarrow> k | None \<Rightarrow> key)"
  by (induction ks) (auto simp add: key_lower_str)

lemma find_sorted_first:
  "sorted (map f ks) \<Longrightarrow> find P ks = Some r \<Longrightarrow>
   r \<in> set ks \<and> P r \<and> (\<forall>k\<in>set ks. P k \<longrightarrow> f r \<le> f k)"
  by (induction ks) (auto split: if_splits)


lemma find_case_first:
  assumes "list_all is_str (map fst kvs)" and "is_str key"
  shows "\<exists>r. find_case kvs key = Inr r \<and>
     ((r \<in> fst ` set kvs \<and> lower (str_key r) = lower (str_key key) \<and>
       (\<forall>k \<in> fst ` set kvs. lower (str_key k) = lower (str_key key) \<longrightarrow> str_key r \<le> str_key k))
      \<or> (r = key \<and> (\<forall>k \<in> fst ` set kvs. lower (str_key k) \<noteq> lower (str_key key))))"
proof -
  let ?P = "\<lambda>k. lower (str_key k) = lower (str_key key)"
  have strs: "list_all is_str (iter kvs)"
    using assms(1) set_iter [of kvs] by (simp add: list_all_iff)
  have fc: "find_case kvs key = Inr (case find ?P (iter kvs) of Some k \<Rightarrow> k | None \<Rightarrow> key)"
    using assms(2) by (simp add: find_case_def ebind_def key_lower_str find_loop_strs [OF strs])
  show ?thesis
  proof (cases "find ?P (iter kvs)")
    case None
    then have "\<forall>k \<in> fst ` set kvs. \<not> ?P k"
      by (simp add: find_None_iff set_iter)
    with fc None show ?thesis by simp
  next
    case (Some r)
    from find_sorted_first [OF iter_str [OF assms(1)] Some]
    have "r \<in> fst ` set kvs \<and> ?P r \<and> (\<forall>k \<in> fst ` set kvs. ?P k \<longrightarrow> str_key r \<le> str_key k)"
      by (simp add: set_iter)
    with fc Some show ?thesis by simp
  qed
qed


section \<open>Dictionary entries and resolution\<close>

lemma dict_get_None: "dict_get kvs k = None \<longleftrightarrow> (\<forall>k'\<in>fst ` set kvs. plain k' \<noteq> plain k)"
proof (induction kvs)
  case Nil
  show ?case by simp
next
  case (Cons kv kvs)
  obtain k' v where kv: "kv = (k', v)" by (cases kv)
  show ?case unfolding kv using Cons.IH by (simp add: key_eq_def)
qed

lemma dict_set_absent: "dict_get kvs k = None \<Longrightarrow> dict_set kvs k v = kvs @ [(k, v)]"
  by (induction kvs) (auto split: if_splits)

lemma dict_get_append_new: "dict_get kvs k = None \<Longrightarrow> dict_get (kvs @ [(k, v)]) k = Some v"
  by (induction kvs) (auto simp add: key_eq_def split: if_splits)

lemma Settings_init_None: "Settings_init (Suc n) h None = Inr (length h, h @ [Settings []])"
  by (simp add: Settings_init.simps(2) dict_init_def alloc_def)

lemma Settings_init_empty:
  "a < length h \<Longrightarrow> h ! a = Settings [] \<Longrightarrow>
   Settings_init (Suc n) h (Some (VRef a)) = Inr (length h, h @ [Settings []])"
  by (simp add: Settings_init.simps(2) dict_init_def alloc_def)

text \<open>What resolve returns: a present key, or the name itself.\<close>

lemma find_loop_result:
  "find_loop ks low key = Inr r \<Longrightarrow>
   r \<in> set ks \<or> (r = key \<and> list_all is_str ks \<and> (\<forall>k\<in>set ks. lower (str_key k) \<noteq> low))"
proof (induction ks)
  case Nil
  then show ?case by simp
next
  case (Cons k ks)
  show ?case
  proof (cases "key_lower k")
    case (Inl e)
    with Cons.prems show ?thesis by simp
  next
    case (Inr l)
    from key_lower_Inr [OF Inr] have k: "is_str k" "l = lower (str_key k)" by simp_all
    show ?thesis
    proof (cases "l = low")
      case True
      with Cons.prems Inr have "r = k" by simp
      then show ?thesis by simp
    next
      case False
      with Cons.prems Inr have "find_loop ks low key = Inr r" by simp
      from Cons.IH [OF this]
      have "r \<in> set ks \<or> (r = key \<and> list_all is_str ks \<and> (\<forall>k\<in>set ks. lower (str_key k) \<noteq> low))" .
      moreover have "lower (str_key k) \<noteq> low" using k False by simp
      ultimately show ?thesis using k(1) by auto
    qed
  qed
qed

lemma find_loop_only_match:
  "list_all is_str ks \<Longrightarrow> key \<in> set ks \<Longrightarrow>
   \<forall>k\<in>set ks. lower (str_key k) = lower (str_key key) \<longrightarrow> k = key \<Longrightarrow>
   find_loop ks (lower (str_key key)) key = Inr key"
proof (induction ks)
  case Nil
  then show ?case by simp
next
  case (Cons k ks)
  from Cons.prems(1) have kl: "key_lower k = Inr (lower (str_key k))" by (simp add: key_lower_str)
  show ?case
  proof (cases "lower (str_key k) = lower (str_key key)")
    case True
    with Cons.prems(3) have "k = key" by simp
    then show ?thesis using kl by simp
  next
    case False
    with Cons.prems(2) have in_ks: "key \<in> set ks" by auto
    from Cons.prems(1) have strs: "list_all is_str ks" by simp
    from Cons.prems(3) have only: "\<forall>k\<in>set ks. lower (str_key k) = lower (str_key key) \<longrightarrow> k = key"
      by simp
    have "find_loop ks (lower (str_key key)) key = Inr key"
      using strs in_ks only by (rule Cons.IH)
    then show ?thesis using kl False by simp
  qed
qed

lemma resolve_result:
  assumes "resolve kvs name = Inr r"
  shows "r \<in> fst ` set kvs \<or>
    (r = name \<and> (is_ig name \<longrightarrow> list_all is_str (map fst kvs) \<and>
       (\<forall>k\<in>fst ` set kvs. lower (str_key k) \<noteq> lower (str_key name))))"
proof (cases "is_ig name")
  case False
  with assms show ?thesis by (simp add: resolve_def)
next
  case True
  then have low: "key_lower name = Inr (lower (str_key name))" by (cases name) auto
  with assms True have "find_loop (iter kvs) (lower (str_key name)) name = Inr r"
    by (simp add: resolve_def find_case_def)
  from find_loop_result [OF this] show ?thesis
    by (auto simp add: set_iter list_all_iff)
qed

lemma dict_get_present: "k \<in> fst ` set kvs \<Longrightarrow> dict_get kvs k \<noteq> None"
  by (auto simp add: dict_get_None)

text \<open>A name that resolved to itself and is then bound resolves to itself again.\<close>

lemma resolve_after_bind:
  assumes r: "resolve kvs name = Inr r" and none: "dict_get kvs r = None"
  shows "resolve kvs r = Inr r \<and> resolve (kvs @ [(r, v)]) r = Inr r"
proof -
  from resolve_result [OF r] none dict_get_present
  have rn: "r = name"
    and ig: "is_ig name \<longrightarrow> list_all is_str (map fst kvs) \<and>
       (\<forall>k\<in>fst ` set kvs. lower (str_key k) \<noteq> lower (str_key name))"
    by blast+
  show ?thesis
  proof (cases "is_ig name")
    case False
    with rn r show ?thesis by (simp add: resolve_def)
  next
    case True
    then have low: "key_lower name = Inr (lower (str_key name))" and st: "is_str name"
      by (cases name; simp)+
    let ?ks = "iter (kvs @ [(name, v)])"
    have "list_all is_str ?ks"
      using ig True st by (simp add: list_all_iff set_iter)
    moreover have "name \<in> set ?ks" by (simp add: set_iter)
    moreover have "\<forall>k\<in>set ?ks. lower (str_key k) = lower (str_key name) \<longrightarrow> k = name"
      using ig True by (auto simp add: set_iter)
    ultimately have "find_loop ?ks (lower (str_key name)) name = Inr name"
      by (rule find_loop_only_match)
    with True low rn r show ?thesis by (simp add: resolve_def find_case_def)
  qed
qed

lemma getitem_missing:
  assumes it: "items_of h self = Inr kvs"
    and r: "resolve kvs name = Inr name'"
    and none: "dict_get kvs name' = None"
  shows "getitem (Suc (Suc n)) h self name =
     Inr (VRef (Suc (length h)),
          (h @ [Settings [], Settings []])[self := Settings (kvs @ [(name', VRef (Suc (length h)))])])"
proof -
  from it have self: "self < length h" "h ! self = Settings kvs" by (simp_all add: items_of_Inr)
  let ?h1 = "h @ [Settings []]"
  let ?h2 = "h @ [Settings [], Settings []]"
  let ?new = "VRef (Suc (length h))"
  let ?h3 = "?h2[self := Settings (kvs @ [(name', ?new)])]"
  from resolve_after_bind [OF r none]
  have r1: "resolve kvs name' = Inr name'" and r2: "resolve (kvs @ [(name', ?new)]) name' = Inr name'"
    by blast+
  have i1: "items_of ?h1 self = Inr kvs" and i2: "items_of ?h2 self = Inr kvs"
    using self by (simp_all add: items_of_Inr nth_append)
  have d: "isinstance_dict ?h1 (VRef (length h))"
    by (simp add: isinstance_dict_def)
  have c: "Settings_init (Suc n) ?h1 (Some (VRef (length h))) = Inr (Suc (length h), ?h2)"
    using Settings_init_empty [of "length h" ?h1 n] by simp
  have s: "setitem (Suc n) ?h1 self name' (VRef (length h)) = Inr ?h3"
    unfolding setitem_def setitem_with_def wrap_def
    by (simp add: i1 r1 d c i2 dict_set_absent [OF none])
  have i3: "items_of ?h3 self = Inr (kvs @ [(name', ?new)])"
    using self by (simp add: items_of_Inr)
  have g: "getitem (Suc n) ?h3 self name' = Inr (?new, ?h3)"
    by (simp add: getitem.simps(2) i3 r2 dict_get_append_new [OF none])
  show ?thesis
    by (subst getitem.simps(2)) (simp add: it r none Settings_init_None s g)
qed

lemma getitem_present:
  "items_of h a = Inr kvs \<Longrightarrow> resolve kvs name = Inr k \<Longrightarrow> dict_get kvs k = Some v \<Longrightarrow>
   getitem (Suc n) h a name = Inr (v, h)"
  by (simp add: getitem.simps(2))

lemma resolve_plain [simp]: "\<not> is_ig name \<Longrightarrow> resolve kvs name = Inr name"
  by (simp add: resolve_def)

lemma vivify_a:
  "getitem (Suc (Suc n)) [Settings []] 0 (KStr ''a'') =
     Inr (VRef 2, [Settings [(KStr ''a'', VRef 2)], Settings [], Settings []])"
  using getitem_missing [of "[Settings []]" 0 "[]" "KStr ''a''" "KStr ''a''" n]
  by (simp add: items_of_def)

lemma vivify_b:
  "getitem (Suc (Suc n)) [Settings [(KStr ''a'', VRef 2)], Settings [], Settings []] 2 (KStr ''b'') =
     Inr (VRef 4, [Settings [(KStr ''a'', VRef 2)], Settings [], Settings [(KStr ''b'', VRef 4)],
                   Settings [], Settings []])"
  using getitem_missing [of "[Settings [(KStr ''a'', VRef 2)], Settings [], Settings []]" 2 "[]"
      "KStr ''b''" "KStr ''b''" n]
  by (simp add: items_of_def)

lemma set_nested_abc:
  "set_nested (Suc (Suc n)) [Settings []] (VRef 0) [KStr ''a'', KStr ''b'', KStr ''c''] (VInt 5) =
     Inr [Settings [(KStr ''a'', VRef 2)], Settings [], Settings [(KStr ''b'', VRef 4)],
          Settings [], Settings [(KStr ''c'', VInt 5)]]"
  by (simp add: set_nested_def subscript_def vivify_a vivify_b store_def setitem_def setitem_with_def
      wrap_def items_of_def isinstance_dict_def)

lemma get_nested_abc:
  "get_nested (Suc n) [Settings [(KStr ''a'', VRef 2)], Settings [], Settings [(KStr ''b'', VRef 4)],
          Settings [], Settings [(KStr ''c'', VInt 5)]] (VRef 0) [KStr ''a'', KStr ''b'', KStr ''c''] =
     Inr (VInt 5, [Settings [(KStr ''a'', VRef 2)], Settings [], Settings [(KStr ''b'', VRef 4)],
          Settings [], Settings [(KStr ''c'', VInt 5)]])"
  by (simp add: subscript_def getitem.simps(2) items_of_def key_eq_def)

section \<open>Iteration, resolution and attribute access: the claims\<close>

text \<open>
  C5 (amended): iteration yields every key once. When all keys are strings they come in
  ascending order of their strings, whatever the insertion order; when all keys are integers
  they come in ascending order of their values (2 before 10), not of their string forms; when
  strings and integers are mixed the direct comparison fails and the keys come in ascending
  order of their string forms. Keys inserted as b, A, c come as A, b, c.
\<close>

theorem iter_order:
  "mset (iter kvs) = mset (map fst kvs) \<and>
   (list_all is_str (map fst kvs) \<longrightarrow> sorted (map str_key (iter kvs))) \<and>
   (list_all (\<lambda>k. \<not> is_str k) (map fst kvs) \<longrightarrow> sorted (map int_key (iter kvs))) \<and>
   (\<not> list_all is_str (map fst kvs) \<and> \<not> list_all (\<lambda>k. \<not> is_str k) (map fst kvs) \<longrightarrow>
      sorted (map str_key (iter kvs))) \<and>
   (mset (map fst kvs') = mset (map fst kvs) \<and> distinct (map plain (map fst kvs)) \<and>
    (list_all is_str (map fst kvs) \<or> list_all (\<lambda>k. \<not> is_str k) (map fst kvs)) \<longrightarrow>
      iter kvs' = iter kvs) \<and>
   iter [(KStr ''b'', x), (KStr ''A'', y), (KStr ''c'', z)] = [KStr ''A'', KStr ''b'', KStr ''c'']"
proof (intro conjI impI)
  show "mset (iter kvs) = mset (map fst kvs)" by (rule mset_iter)
  show "sorted (map str_key (iter kvs))" if "list_all is_str (map fst kvs)"
    using that by (rule iter_str)
  show "sorted (map int_key (iter kvs))" if "list_all (\<lambda>k. \<not> is_str k) (map fst kvs)"
    using that by (rule iter_int)
  show "sorted (map str_key (iter kvs))"
    if "\<not> list_all is_str (map fst kvs) \<and> \<not> list_all (\<lambda>k. \<not> is_str k) (map fst kvs)"
    using that iter_mixed by blast
  show "iter kvs' = iter kvs"
    if "mset (map fst kvs') = mset (map fst kvs) \<and> distinct (map plain (map fst kvs)) \<and>
        (list_all is_str (map fst kvs) \<or> list_all (\<lambda>k. \<not> is_str k) (map fst kvs))"
    using that iter_insertion_order by blast
  show "iter [(KStr ''b'', x), (KStr ''A'', y), (KStr ''c'', z)] = [KStr ''A'', KStr ''b'', KStr ''c'']"
    by (simp add: iter_def sorted_native_def)
qed

theorem iter_order_witness:
  "sorted (map str_key (iter [(KStr ''b'', VInt 1), (KStr ''A'', VInt 2), (KStr ''c'', VInt 3)])) \<and>
   sorted (map int_key (iter [(KInt 10, VInt 1), (KInt 2, VInt 2)])) \<and>
   sorted (map str_key (iter [(KInt 10, VInt 1), (KStr ''2'', VInt 2)])) \<and>
   iter [(KStr ''c'', VInt 3), (KStr ''A'', VInt 2), (KStr ''b'', VInt 1)] =
     iter [(KStr ''b'', VInt 1), (KStr ''A'', VInt 2), (KStr ''c'', VInt 3)]"
proof (intro conjI)
  let ?K = "[(KStr ''b'', VInt 1), (KStr ''A'', VInt 2), (KStr ''c'', VInt 3)]"
  have st: "list_all is_str (map fst ?K)" by simp
  show "sorted (map str_key (iter ?K))"
    using iter_order [of ?K] st by blast
  have "list_all (\<lambda>k. \<not> is_str k) (map fst [(KInt 10, VInt 1), (KInt 2, VInt 2)])" by simp
  then show "sorted (map int_key (iter [(KInt 10, VInt 1), (KInt 2, VInt 2)]))"
    using iter_order [of "[(KInt 10, VInt 1), (KInt 2, VInt 2)]"] by blast
  have "\<not> list_all is_str (map fst [(KInt 10, VInt 1), (KStr ''2'', VInt 2)]) \<and>
        \<not> list_all (\<lambda>k. \<not> is_str k) (map fst [(KInt 10, VInt 1), (KStr ''2'', VInt 2)])" by simp
  then show "sorted (map str_key (iter [(KInt 10, VInt 1), (KStr ''2'', VInt 2)]))"
    using iter_order [of "[(KInt 10, VInt 1), (KStr ''2'', VInt 2)]"] by blast
  let ?K' = "[(KStr ''c'', VInt 3), (KStr ''A'', VInt 2), (KStr ''b'', VInt 1)]"
  have "mset (map fst ?K') = mset (map fst ?K) \<and> distinct (map plain (map fst ?K)) \<and>
        (list_all is_str (map fst ?K) \<or> list_all (\<lambda>k. \<not> is_str k) (map fst ?K))" by simp
  then show "iter ?K' = iter ?K"
    using iter_order [where kvs = ?K and kvs' = ?K'] by blast
qed

text \<open>
  C5 as stated fails: the keys 10 and 2 come as 2, 10, and the string ''2'' is not below ''10''.
\<close>

theorem iter_string_form_counterexample:
  "\<not> sorted (map str_key (iter [(KInt 10, VNone), (KInt 2, VNone)]))"
  by code_simp

text \<open>
  C1: reading a missing key binds a new empty node at that key and returns it: the call
  allocates two empty nodes (the one \<^verbatim>\<open>__missing__\<close> makes and the copy \<^verbatim>\<open>__setitem__\<close> stores),
  appends the entry for the second to the node read, and returns the second. On the empty
  store, reading \<^verbatim>\<open>a\<close> and then \<^verbatim>\<open>b\<close> of the result each return such a node, and
  \<^verbatim>\<open>set_nested(('a','b','c'), 5)\<close> followed by \<^verbatim>\<open>get_nested(('a','b','c'))\<close> returns 5. Any depth
  of two calls or more is enough.
\<close>

theorem auto_vivification:
  "(items_of h self = Inr kvs \<and> resolve kvs name = Inr name' \<and> dict_get kvs name' = None \<longrightarrow>
      getitem (Suc (Suc n)) h self name =
        Inr (VRef (Suc (length h)),
             (h @ [Settings [], Settings []])[self := Settings (kvs @ [(name', VRef (Suc (length h)))])])) \<and>
   getitem (Suc (Suc n)) [Settings []] 0 (KStr ''a'') =
     Inr (VRef 2, [Settings [(KStr ''a'', VRef 2)], Settings [], Settings []]) \<and>
   getitem (Suc (Suc n)) [Settings [(KStr ''a'', VRef 2)], Settings [], Settings []] 2 (KStr ''b'') =
     Inr (VRef 4, [Settings [(KStr ''a'', VRef 2)], Settings [], Settings [(KStr ''b'', VRef 4)],
                   Settings [], Settings []]) \<and>
   ebind (set_nested (Suc (Suc n)) [Settings []] (VRef 0) [KStr ''a'', KStr ''b'', KStr ''c''] (VInt 5))
     (\<lambda>h'. ebind (get_nested (Suc (Suc n)) h' (VRef 0) [KStr ''a'', KStr ''b'', KStr ''c''])
       (\<lambda>(v, h''). Inr v)) = Inr (VInt 5)"
proof (intro conjI impI)
  show "getitem (Suc (Suc n)) h self name =
        Inr (VRef (Suc (length h)),
             (h @ [Settings [], Settings []])[self := Settings (kvs @ [(name', VRef (Suc (length h)))])])"
    if "items_of h self = Inr kvs \<and> resolve kvs name = Inr name' \<and> dict_get kvs name' = None"
    using that getitem_missing by blast
  show "getitem (Suc (Suc n)) [Settings []] 0 (KStr ''a'') =
     Inr (VRef 2, [Settings [(KStr ''a'', VRef 2)], Settings [], Settings []])"
    by (rule vivify_a)
  show "getitem (Suc (Suc n)) [Settings [(KStr ''a'', VRef 2)], Settings [], Settings []] 2 (KStr ''b'') =
     Inr (VRef 4, [Settings [(KStr ''a'', VRef 2)], Settings [], Settings [(KStr ''b'', VRef 4)],
                   Settings [], Settings []])"
    by (rule vivify_b)
  show "ebind (set_nested (Suc (Suc n)) [Settings []] (VRef 0) [KStr ''a'', KStr ''b'', KStr ''c''] (VInt 5))
     (\<lambda>h'. ebind (get_nested (Suc (Suc n)) h' (VRef 0) [KStr ''a'', KStr ''b'', KStr ''c''])
       (\<lambda>(v, h''). Inr v)) = Inr (VInt 5)"
    by (simp only: set_nested_abc ebind_Inr get_nested_abc [of "Suc n"]) simp
qed

theorem auto_vivification_witness:
  "getitem 2 [Settings [(KStr ''x'', VInt 1)]] 0 (KIg ''A'') =
     Inr (VRef 2, [Settings [(KStr ''x'', VInt 1), (KIg ''A'', VRef 2)], Settings [], Settings []])"
proof -
  have "items_of [Settings [(KStr ''x'', VInt 1)]] 0 = Inr [(KStr ''x'', VInt 1)] \<and>
        resolve [(KStr ''x'', VInt 1)] (KIg ''A'') = Inr (KIg ''A'') \<and>
        dict_get [(KStr ''x'', VInt 1)] (KIg ''A'') = None"
    by code_simp
  then show ?thesis
    using auto_vivification [of "[Settings [(KStr ''x'', VInt 1)]]" 0 "[(KStr ''x'', VInt 1)]"
        "KIg ''A''" "KIg ''A''" 0]
    by (simp add: numeral_2_eq_2)
qed

text \<open>
  C9: on a node whose keys are strings, \<^verbatim>\<open>find_case\<close> of a string returns a key of the node
  whose lower-case form is that of the argument and whose string is the least among such
  keys (the first in iteration order), or the argument itself when no key matches; reading
  through the wrapper returns the value under that key and changes nothing. With the only
  key \<^verbatim>\<open>System\<close>, \<^verbatim>\<open>find_case('system')\<close> is \<^verbatim>\<open>System\<close> and \<^verbatim>\<open>ig('system')\<close> reads its value.
\<close>

theorem find_case_resolution:
  "(list_all is_str (map fst kvs) \<and> is_str key \<longrightarrow>
      (\<exists>r. find_case kvs key = Inr r \<and>
         ((r \<in> fst ` set kvs \<and> lower (str_key r) = lower (str_key key) \<and>
           (\<forall>k \<in> fst ` set kvs. lower (str_key k) = lower (str_key key) \<longrightarrow> str_key r \<le> str_key k))
          \<or> (r = key \<and> (\<forall>k \<in> fst ` set kvs. lower (str_key k) \<noteq> lower (str_key key)))))) \<and>
   (items_of h a = Inr kvs \<and> list_all is_str (map fst kvs) \<and>
    (\<exists>k \<in> fst ` set kvs. lower (str_key k) = lower s) \<longrightarrow>
      (\<exists>r v. find_case kvs (KIg s) = Inr r \<and> dict_get kvs r = Some v \<and>
         getitem (Suc n) h a (KIg s) = Inr (v, h))) \<and>
   find_case [(KStr ''System'', x)] (KStr ''system'') = Inr (KStr ''System'') \<and>
   getitem (Suc n) [Settings [(KStr ''System'', x)]] 0 (KIg ''system'') =
     Inr (x, [Settings [(KStr ''System'', x)]])"
proof (intro conjI impI)
  show "\<exists>r. find_case kvs key = Inr r \<and>
         ((r \<in> fst ` set kvs \<and> lower (str_key r) = lower (str_key key) \<and>
           (\<forall>k \<in> fst ` set kvs. lower (str_key k) = lower (str_key key) \<longrightarrow> str_key r \<le> str_key k))
          \<or> (r = key \<and> (\<forall>k \<in> fst ` set kvs. lower (str_key k) \<noteq> lower (str_key key))))"
    if "list_all is_str (map fst kvs) \<and> is_str key"
    using that find_case_first by blast
  show "\<exists>r v. find_case kvs (KIg s) = Inr r \<and> dict_get kvs r = Some v \<and>
         getitem (Suc n) h a (KIg s) = Inr (v, h)"
    if asm: "items_of h a = Inr kvs \<and> list_all is_str (map fst kvs) \<and>
      (\<exists>k \<in> fst ` set kvs. lower (str_key k) = lower s)"
  proof -
    from asm have it: "items_of h a = Inr kvs" and strs: "list_all is_str (map fst kvs)"
      and ex: "\<exists>k \<in> fst ` set kvs. lower (str_key k) = lower s" by blast+
    from find_case_first [OF strs, of "KIg s"] ex
    obtain r where r: "find_case kvs (KIg s) = Inr r" "r \<in> fst ` set kvs"
      by auto
    from dict_get_present [OF r(2)] obtain v where v: "dict_get kvs r = Some v" by blast
    have "resolve kvs (KIg s) = Inr r" using r(1) by (simp add: resolve_def)
    from getitem_present [OF it this v] r(1) v show ?thesis by blast
  qed
  have low: "lower ''System'' = ''system''" "lower ''system'' = ''system''"
    by code_simp+
  show "find_case [(KStr ''System'', x)] (KStr ''system'') = Inr (KStr ''System'')"
    by (simp add: find_case_def iter_def sorted_native_def low)
  show "getitem (Suc n) [Settings [(KStr ''System'', x)]] 0 (KIg ''system'') =
     Inr (x, [Settings [(KStr ''System'', x)]])"
    by (simp add: getitem.simps(2) items_of_def resolve_def find_case_def iter_def
        sorted_native_def low key_eq_def)
qed

theorem find_case_resolution_witness:
  "\<exists>r. find_case [(KStr ''b'', VInt 1), (KStr ''B'', VInt 2)] (KIg ''b'') = Inr r \<and> r = KStr ''B''"
proof -
  let ?kvs = "[(KStr ''b'', VInt 1), (KStr ''B'', VInt 2)]"
  have "list_all is_str (map fst ?kvs) \<and> is_str (KIg ''b'')" by simp
  with find_case_resolution [of ?kvs "KIg ''b''"]
  obtain r where r: "find_case ?kvs (KIg ''b'') = Inr r" by blast
  moreover have "find_case ?kvs (KIg ''b'') = Inr (KStr ''B'')" by code_simp
  ultimately show ?thesis by simp
qed

text \<open>
  C10: with the integer key of the class's own example, \<^verbatim>\<open>find_case\<close> of a string raises
  \<^verbatim>\<open>AttributeError\<close> (\<^verbatim>\<open>k.lower()\<close> on the integer), and so does membership of a wrapper key.
\<close>

theorem find_case_int_key_raises:
  "find_case [(KInt 1, VStr ''a1'')] (KStr ''x'') = Inl AttributeError \<and>
   contains [Settings [(KInt 1, VStr ''a1'')]] 0 (KIg ''x'') = Inl AttributeError"
  by code_simp

text \<open>
  C7: assigning the attribute \<^verbatim>\<open>__foo__\<close> on an empty node sets the instance attribute and
  also stores the key \<^verbatim>\<open>__foo__\<close> in the mapping; deleting the attribute when the mapping has
  no such key removes the instance attribute's entry and then raises \<^verbatim>\<open>KeyError\<close>.
\<close>

theorem dunder_setattr_reaches_store:
  "(case setattr 2 (\<lambda>a. []) [Settings []] 0 ''__foo__'' (VInt 1) of
      Inr (d, h) \<Rightarrow> h = [Settings [(KStr ''__foo__'', VInt 1)]] \<and> d 0 = [(''__foo__'', VInt 1)]
    | Inl e \<Rightarrow> False) \<and>
   (case delattr ((\<lambda>a. [])(0 := [(''__foo__'', VInt 1)])) [Settings []] 0 ''__foo__'' of
      Inl e \<Rightarrow> e = KeyError
    | Inr r \<Rightarrow> False)"
  by code_simp

section \<open>Growing heaps\<close>

lemma prefix_nth: "prefix h h' \<Longrightarrow> a < length h \<Longrightarrow> h' ! a = h ! a"
  by (auto simp add: prefix_def nth_append)

lemma prefix_length: "prefix h h' \<Longrightarrow> length h \<le> length h'"
  by (rule prefix_length_le)

lemma prefix_update: "prefix h g \<Longrightarrow> length h \<le> a \<Longrightarrow> prefix h (g[a := x])"
  by (auto simp add: prefix_def list_update_append)

lemma prefix_items_of: "prefix h h' \<Longrightarrow> a < length h \<Longrightarrow> items_of h' a = items_of h a"
  using prefix_length [of h h'] by (simp add: items_of_def prefix_nth)

lemma heap_ext_iff:
  "heap_ext h h' \<longleftrightarrow> length h \<le> length h' \<and> (\<forall>a<length h. obj_ext (h ! a) (h' ! a))"
  by (auto simp add: heap_ext_def list_all2_conv_all_nth)

lemma obj_ext_refl [simp]: "obj_ext ob ob"
  by (cases ob) simp_all

lemma obj_ext_trans: "obj_ext a b \<Longrightarrow> obj_ext b c \<Longrightarrow> obj_ext a c"
  by (cases a; cases b; cases c) auto

lemma heap_ext_refl [simp]: "heap_ext h h"
  by (simp add: heap_ext_iff)

lemma heap_ext_trans: "heap_ext h g \<Longrightarrow> heap_ext g k \<Longrightarrow> heap_ext h k"
  unfolding heap_ext_iff using obj_ext_trans by (metis le_trans less_le_trans)

lemma prefix_heap_ext: "prefix h h' \<Longrightarrow> heap_ext h h'"
  by (simp add: heap_ext_iff prefix_nth prefix_length)

lemma heap_ext_append_entry:
  assumes "prefix h g" "self < length h" "h ! self = Settings kvs"
  shows "heap_ext h (g[self := Settings (kvs @ more)])"
  unfolding heap_ext_iff
proof (intro conjI allI impI)
  show "length h \<le> length (g[self := Settings (kvs @ more)])"
    using prefix_length [OF assms(1)] by simp
  fix a assume a: "a < length h"
  then have ag: "a < length g" using prefix_length [OF assms(1)] by simp
  show "obj_ext (h ! a) (g[self := Settings (kvs @ more)] ! a)"
  proof (cases "a = self")
    case True
    with assms ag show ?thesis by simp
  next
    case False
    with a ag assms(1) show ?thesis by (simp add: prefix_nth)
  qed
qed

section \<open>The loop combinator\<close>

lemma for_each_inv:
  assumes "for_each f xs h = Inr h'" and "I h"
    and "\<And>x g g'. x \<in> set xs \<Longrightarrow> I g \<Longrightarrow> f x g = Inr g' \<Longrightarrow> I g'"
  shows "I h'"
  using assms
proof (induction xs arbitrary: h)
  case Nil
  then show ?case by simp
next
  case (Cons x xs)
  from Cons.prems(1) obtain g where g: "f x h = Inr g" "for_each f xs g = Inr h'"
    by (auto split: sum.splits)
  have "I g" using Cons.prems(2) g(1) by (intro Cons.prems(3) [of x h g]) simp_all
  with g(2) show ?case
  proof (rule Cons.IH)
    fix y k k' assume "y \<in> set xs" "I k" "f y k = Inr k'"
    then show "I k'" by (intro Cons.prems(3) [of y k k']) simp_all
  qed
qed

section \<open>Assignment and the constructor leave the other objects alone\<close>

lemma wrap_cases:
  assumes "wrap ctor h v = Inr (v', h')"
  obtains (keep) "\<not> isinstance_dict h v" "v' = v" "h' = h"
  | (new) s where "isinstance_dict h v" "ctor h (Some v) = Inr (s, h')" "v' = VRef s"
  using assms by (auto simp add: wrap_def ebind_eq_Inr split: if_splits)

lemma setitem_withE:
  assumes "setitem_with ctor h self name v = Inr h'"
  obtains kvs k v' h1 kvs1 where "items_of h self = Inr kvs" "resolve kvs name = Inr k"
    "wrap ctor h v = Inr (v', h1)" "items_of h1 self = Inr kvs1"
    "h' = h1[self := Settings (dict_set kvs1 k v')]"
  using assms unfolding setitem_with_def by (auto simp add: ebind_eq_Inr)

lemma wrap_grows: "ctor_grows ctor \<Longrightarrow> wrap ctor h v = Inr (v', h') \<Longrightarrow> prefix h h'"
  by (erule wrap_cases) (auto simp add: ctor_grows_def)

lemma setitem_with_shape:
  assumes c: "ctor_grows ctor" and s: "setitem_with ctor h self name v = Inr h'"
  obtains kvs k v' h1 where "items_of h self = Inr kvs" "resolve kvs name = Inr k"
    "wrap ctor h v = Inr (v', h1)" "prefix h h1" "self < length h"
    "h' = h1[self := Settings (dict_set kvs k v')]"
proof -
  from s obtain kvs k v' h1 kvs1 where *: "items_of h self = Inr kvs" "resolve kvs name = Inr k"
    "wrap ctor h v = Inr (v', h1)" "items_of h1 self = Inr kvs1"
    "h' = h1[self := Settings (dict_set kvs1 k v')]"
    by (rule setitem_withE)
  from wrap_grows [OF c *(3)] have p: "prefix h h1" .
  from *(1) have l: "self < length h" by (simp add: items_of_Inr)
  from prefix_items_of [OF p l] *(1,4) have "kvs1 = kvs" by simp
  with * p l show ?thesis by (intro that [of kvs k v' h1]) simp_all
qed

lemma wrap_elems_grows:
  "ctor_grows ctor \<Longrightarrow> wrap_elems ctor xs h = Inr (ys, h') \<Longrightarrow> prefix h h'"
proof (induction xs arbitrary: h ys)
  case Nil
  then show ?case by simp
next
  case (Cons x xs)
  from Cons.prems(2) obtain y h1 ys' where *: "wrap ctor h x = Inr (y, h1)"
    "wrap_elems ctor xs h1 = Inr (ys', h')"
    by (auto split: sum.splits prod.splits)
  from wrap_grows [OF Cons.prems(1) *(1)] Cons.IH [OF Cons.prems(1) *(2)]
  show ?case by (rule prefix_order.trans)
qed

lemma building_setitem:
  assumes c: "ctor_grows ctor" and b: "building h0 self g"
    and s: "setitem_with ctor g self name v = Inr g'"
  shows "building h0 self g'"
proof -
  from c s obtain kvs k v' h1 where *: "prefix g h1" "self < length g"
    "g' = h1[self := Settings (dict_set kvs k v')]"
    by (rule setitem_with_shape)
  from b have "prefix h0 g" "length h0 \<le> self" by (simp_all add: building_def)
  with * have "prefix h0 h1" by (meson prefix_order.trans)
  with * \<open>length h0 \<le> self\<close> prefix_length [OF *(1)] show ?thesis
    by (simp add: building_def prefix_update)
qed

lemma building_grow: "building h0 self g \<Longrightarrow> prefix g g' \<Longrightarrow> building h0 self g'"
  using prefix_length [of g g'] by (auto simp add: building_def prefix_nth intro: prefix_order.trans)

lemma building_init_item:
  assumes c: "ctor_grows ctor" and b: "building h0 self g"
    and s: "init_item ctor self i g = Inr g'"
  shows "building h0 self g'"
proof -
  from s obtain kvs where kvs: "items_of g self = Inr kvs" "i < length kvs"
    by (auto simp add: init_item_def ebind_eq_Inr split: if_splits)
  obtain k v where kv: "kvs ! i = (k, v)" by (cases "kvs ! i")
  from s kvs kv obtain h1 where
    h1: "(if isinstance_dict g v
          then ebind (ctor g (Some v)) (\<lambda>(s, h'). setitem_with ctor h' self k (VRef s))
          else Inr g) = Inr h1"
    and rest: "(if isinstance_list h1 v
       then (case h1 ! (case v of VRef a \<Rightarrow> a | _ \<Rightarrow> 0) of
               PyList xs \<Rightarrow>
                 ebind (wrap_elems ctor xs h1) (\<lambda>(ys, h2).
                 let (l, h3) = alloc h2 (PyList ys) in
                 setitem_with ctor h3 self k (VRef l))
             | _ \<Rightarrow> Inl TypeError)
       else Inr h1) = Inr g'"
    by (auto simp add: init_item_def ebind_eq_Inr)
  have b1: "building h0 self h1"
  proof (cases "isinstance_dict g v")
    case False
    with h1 b show ?thesis by simp
  next
    case True
    with h1 obtain s h' where s: "ctor g (Some v) = Inr (s, h')"
      "setitem_with ctor h' self k (VRef s) = Inr h1"
      by (auto simp add: ebind_eq_Inr)
    from c s(1) have "prefix g h'" by (simp add: ctor_grows_def)
    from building_setitem [OF c building_grow [OF b this] s(2)] show ?thesis .
  qed
  show ?thesis
  proof (cases "isinstance_list h1 v")
    case False
    with rest b1 show ?thesis by simp
  next
    case True
    with rest obtain xs ys h2 where w: "wrap_elems ctor xs h1 = Inr (ys, h2)"
      "setitem_with ctor (h2 @ [PyList ys]) self k (VRef (length h2)) = Inr g'"
      by (auto simp add: ebind_eq_Inr alloc_def split: obj.splits)
    from wrap_elems_grows [OF c w(1)] have "prefix h1 (h2 @ [PyList ys])"
      by (rule prefix_order.trans) simp
    from building_setitem [OF c building_grow [OF b1 this] w(2)] show ?thesis .
  qed
qed

lemma Settings_init_grows: "ctor_grows (Settings_init n)"
proof (induction n)
  case 0
  show ?case by (simp add: ctor_grows_def)
next
  case (Suc n)
  show ?case unfolding ctor_grows_def
  proof (intro allI impI)
    fix g x s g'
    assume "Settings_init (Suc n) g x = Inr (s, g')"
    then obtain kvs where s: "s = length g"
      and loop: "for_each (init_item (Settings_init n) (length g)) [0..<length kvs] (g @ [Settings kvs]) = Inr g'"
      by (auto simp add: Settings_init.simps(2) ebind_eq_Inr alloc_def)
    have "building g (length g) (g @ [Settings kvs])"
      by (simp add: building_def)
    with loop have "building g (length g) g'"
      by (rule for_each_inv) (rule building_init_item [OF Suc])
    with s show "s = length g \<and> prefix g g' \<and> s < length g' \<and> (\<exists>kvs. g' ! s = Settings kvs)"
      by (simp add: building_def)
  qed
qed

lemmas Settings_init_frame = Settings_init_grows [unfolded ctor_grows_def, rule_format]


section \<open>Reading\<close>

lemma getitem_cases:
  assumes "getitem n h a name = Inr (v, h')"
  obtains (present) kvs k where "items_of h a = Inr kvs" "resolve kvs name = Inr k"
      "dict_get kvs k = Some v" "h' = h"
  | (missing) kvs k where "items_of h a = Inr kvs" "resolve kvs name = Inr k"
      "dict_get kvs k = None" "v = VRef (Suc (length h))"
      "h' = (h @ [Settings [], Settings []])[a := Settings (kvs @ [(k, VRef (Suc (length h)))])]"
proof (cases n)
  case 0
  with assms show ?thesis by simp
next
  case (Suc m)
  with assms obtain kvs k where kk: "items_of h a = Inr kvs" "resolve kvs name = Inr k"
    by (auto simp add: getitem.simps(2) ebind_eq_Inr)
  show ?thesis
  proof (cases "dict_get kvs k")
    case (Some w)
    with assms Suc kk have "w = v" "h' = h" by (simp_all add: getitem.simps(2))
    with Some kk show ?thesis by (intro present [of kvs k]) simp_all
  next
    case None
    show ?thesis
    proof (cases m)
      case 0
      with assms Suc kk None show ?thesis by (simp add: getitem.simps(2))
    next
      case (Suc l)
      let ?H = "(h @ [Settings [], Settings []])[a := Settings (kvs @ [(k, VRef (Suc (length h)))])]"
      have "getitem n h a name = Inr (VRef (Suc (length h)), ?H)"
        using getitem_missing [OF kk None, of l] \<open>n = Suc m\<close> Suc by simp
      with assms have "v = VRef (Suc (length h))" "h' = ?H" by auto
      then show ?thesis using kk None by (intro missing [of kvs k])
    qed
  qed
qed

lemma resolve_present:
  assumes "resolve kvs name = Inr k" "name \<in> fst ` set kvs"
  shows "k \<in> fst ` set kvs"
  using resolve_result [OF assms(1)] assms(2) by blast

text \<open>Reading a key that is there changes nothing.\<close>

lemma getitem_of_key:
  assumes g: "getitem n h a name = Inr (v, h')" and i: "items_of h a = Inr kvs"
    and k: "name \<in> fst ` set kvs"
  shows "h' = h"
  using g
proof (cases rule: getitem_cases)
  case (present kvs' k')
  then show ?thesis by simp
next
  case (missing kvs' k')
  with i have "kvs' = kvs" by simp
  with missing(2) have "resolve kvs name = Inr k'" by simp
  then have "k' \<in> fst ` set kvs" using k by (rule resolve_present)
  from dict_get_present [OF this] missing(3) \<open>kvs' = kvs\<close> show ?thesis by simp
qed

lemma getitem_ext:
  assumes "getitem n h a name = Inr (v, h')"
  shows "heap_ext h h'"
  using assms
proof (cases rule: getitem_cases)
  case (present kvs k)
  then show ?thesis by simp
next
  case (missing kvs k)
  from missing(1) have a: "a < length h" "h ! a = Settings kvs" by (simp_all add: items_of_Inr)
  have "prefix h (h @ [Settings [], Settings []])" by simp
  from heap_ext_append_entry [OF this a] missing(5) show ?thesis by simp
qed

text \<open>After a read the key is there: a second read changes nothing, and membership holds.\<close>

lemma getitem_then:
  assumes "getitem n h a name = Inr (v, h')"
  shows "\<exists>kvs k. items_of h' a = Inr kvs \<and> resolve kvs name = Inr k \<and> dict_get kvs k = Some v"
  using assms
proof (cases rule: getitem_cases)
  case (present kvs k)
  then show ?thesis by auto
next
  case (missing kvs k)
  from missing(1) have a: "a < length h" by (simp add: items_of_Inr)
  have kn: "k = name"
  proof (rule ccontr)
    assume "k \<noteq> name"
    with resolve_result [OF missing(2)] have "k \<in> fst ` set kvs" by blast
    from dict_get_present [OF this] missing(3) show False by simp
  qed
  from resolve_after_bind [OF missing(2,3), of v] kn
  have r: "resolve (kvs @ [(k, v)]) name = Inr k" by simp
  have "items_of h' a = Inr (kvs @ [(k, v)])"
    using a missing(4,5) by (simp add: items_of_Inr)
  with r dict_get_append_new [OF missing(3), of v] show ?thesis by auto
qed

lemma getitem_then_contains:
  assumes "getitem n h a name = Inr (v, h')"
  shows "contains h' a name = Inr True"
proof -
  from getitem_then [OF assms] obtain kvs k where
    "items_of h' a = Inr kvs" "resolve kvs name = Inr k" "dict_get kvs k = Some v"
    by blast
  then show ?thesis by (simp add: contains_def dict_has_def)
qed

lemma getitem_other:
  assumes "getitem n h a name = Inr (v, h')" "b < length h" "b \<noteq> a"
  shows "h' ! b = h ! b"
  using assms(1)
proof (cases rule: getitem_cases)
  case (present kvs k)
  then show ?thesis by simp
next
  case (missing kvs k)
  with assms(2,3) show ?thesis by (simp add: nth_append)
qed

lemma getitem_length:
  assumes "getitem n h a name = Inr (v, h')"
  shows "length h \<le> length h'"
  using assms by (cases rule: getitem_cases) simp_all

section \<open>Indexing the argument\<close>

lemma subscript_cases:
  assumes "subscript n h ob name = Inr (v, h')"
  obtains (node) a kvs where "ob = VRef a" "a < length h" "h ! a = Settings kvs"
      "getitem n h a name = Inr (v, h')"
  | (other) "h' = h" "\<not> isinstance_Settings h ob"
proof (cases ob)
  case (VRef a)
  show ?thesis
  proof (cases "a < length h")
    case False
    with assms VRef show ?thesis by (simp add: subscript_def)
  next
    case True
    show ?thesis
    proof (cases "h ! a")
      case (Settings kvs)
      with assms VRef True show ?thesis by (intro node [of a kvs]) (simp_all add: subscript_def)
    next
      case (Dict kvs)
      with assms VRef True have "h' = h"
        by (simp add: subscript_def split: option.splits)
      with Dict VRef show ?thesis by (intro other) (simp_all add: isinstance_Settings_def)
    next
      case (PyList xs)
      with assms VRef True have "h' = h"
        by (auto simp add: subscript_def ebind_eq_Inr split: key.splits)
      with PyList VRef show ?thesis by (intro other) (simp_all add: isinstance_Settings_def)
    qed
  qed
next
  case VNone
  with assms show ?thesis by (simp add: subscript_def)
next
  case (VInt i)
  with assms show ?thesis by (simp add: subscript_def)
next
  case (VStr s)
  with assms have "h' = h" by (auto simp add: subscript_def ebind_eq_Inr split: key.splits)
  with VStr show ?thesis by (intro other) (simp_all add: isinstance_Settings_def)
qed

lemma subscript_ext:
  assumes "subscript n h ob name = Inr (v, h')"
  shows "heap_ext h h'"
  using assms
proof (cases rule: subscript_cases)
  case (node a kvs)
  then show ?thesis by (intro getitem_ext [of n h a name v h'])
next
  case other
  then show ?thesis by simp
qed

lemma subscript_other:
  assumes "subscript n h ob name = Inr (v, h')" "b < length h" "ob \<noteq> VRef b"
  shows "h' ! b = h ! b"
  using assms(1)
proof (cases rule: subscript_cases)
  case (node a kvs)
  with assms(2,3) show ?thesis by (intro getitem_other [of n h a name v h']) simp_all
next
  case other
  then show ?thesis by simp
qed

lemma subscript_length:
  assumes "subscript n h ob name = Inr (v, h')"
  shows "length h \<le> length h'"
  using assms
proof (cases rule: subscript_cases)
  case (node a kvs)
  then show ?thesis by (intro getitem_length [of n h a name v h'])
next
  case other
  then show ?thesis by simp
qed

lemma subscript_items:
  assumes s: "subscript n h ob name = Inr (v, h')" and c: "contains h' self name = Inr False"
    and l: "self < length h"
  shows "items_of h' self = items_of h self"
  using s
proof (cases rule: subscript_cases)
  case (node a kvs)
  from getitem_then_contains [OF node(4)] c have "a \<noteq> self" by auto
  with getitem_other [OF node(4) l] getitem_length [OF node(4)] l show ?thesis
    by (simp add: items_of_def)
next
  case other
  then show ?thesis by simp
qed

text \<open>Reading again what was just read changes nothing.\<close>

lemma getitem_again:
  assumes "getitem n h a name = Inr (v, h1)" "getitem m h1 a name = Inr (w, h2)"
  shows "h2 = h1"
proof -
  from getitem_then [OF assms(1)] obtain kvs k where
    *: "items_of h1 a = Inr kvs" "resolve kvs name = Inr k" "dict_get kvs k = Some v"
    by blast
  from assms(2) show ?thesis
  proof (cases rule: getitem_cases)
    case (present kvs' k')
    then show ?thesis by simp
  next
    case (missing kvs' k')
    with * show ?thesis by simp
  qed
qed

lemma getitem_kind:
  assumes "getitem n h a name = Inr (v, h')" "b < length h"
  shows "(\<exists>kvs. h' ! b = Settings kvs) = (\<exists>kvs. h ! b = Settings kvs)"
  using assms(1)
proof (cases rule: getitem_cases)
  case (present kvs k)
  then show ?thesis by simp
next
  case (missing kvs k)
  from missing(1) have "a < length h" "h ! a = Settings kvs" by (simp_all add: items_of_Inr)
  with missing(5) assms(2) show ?thesis by (cases "b = a") (simp_all add: nth_append)
qed

lemma subscript_again:
  assumes "subscript n h ob name = Inr (v, h1)" "subscript m h1 ob name = Inr (w, h2)"
  shows "h2 = h1"
  using assms(2)
proof (cases rule: subscript_cases)
  case second: (node a kvs)
  from assms(1) show ?thesis
  proof (cases rule: subscript_cases)
    case (node a' kvs')
    with second have "getitem n h a name = Inr (v, h1)" by simp
    from getitem_again [OF this second(4)] show ?thesis .
  next
    case other
    with second show ?thesis by (simp add: isinstance_Settings_def)
  qed
next
  case other
  then show ?thesis by simp
qed

section \<open>Assigning under an absent key appends\<close>

lemma setitem_absent_ext:
  assumes s: "setitem n h self name v = Inr h'" and c: "contains h self name = Inr False"
  shows "heap_ext h h'"
proof -
  from Settings_init_grows s [unfolded setitem_def]
  obtain kvs k v' h1 where *: "items_of h self = Inr kvs" "resolve kvs name = Inr k"
    "prefix h h1" "self < length h" "h' = h1[self := Settings (dict_set kvs k v')]"
    by (rule setitem_with_shape)
  from c * have "dict_get kvs k = None" by (simp add: contains_def dict_has_def)
  from dict_set_absent [OF this] * have h': "h' = h1[self := Settings (kvs @ [(k, v')])]" by simp
  from *(1) have "h ! self = Settings kvs" by (simp add: items_of_Inr)
  from heap_ext_append_entry [OF *(3,4) this] h' show ?thesis by simp
qed

lemma setitem_length: "setitem n h self name v = Inr h' \<Longrightarrow> length h \<le> length h'"
proof -
  assume "setitem n h self name v = Inr h'"
  with Settings_init_grows obtain h1 kvs' where "prefix h h1" "h' = h1[self := Settings kvs']"
    unfolding setitem_def by (rule setitem_with_shape)
  then show ?thesis using prefix_length [of h h1] by simp
qed

lemma setitem_other:
  assumes "setitem n h self name v = Inr h'" "b < length h" "b \<noteq> self"
  shows "h' ! b = h ! b"
proof -
  from Settings_init_grows assms(1) obtain h1 kvs' where "prefix h h1" "h' = h1[self := Settings kvs']"
    unfolding setitem_def by (rule setitem_with_shape)
  with assms(2,3) show ?thesis by (simp add: prefix_nth)
qed


section \<open>copy leaves the objects there were alone\<close>

lemma setitem_building:
  "building h0 self g \<Longrightarrow> setitem n g self name v = Inr g' \<Longrightarrow> building h0 self g'"
  unfolding setitem_def by (rule building_setitem [OF Settings_init_grows])

lemma Settings_init_None_eq:
  assumes "Settings_init n h None = Inr (r, h')"
  shows "r = length h \<and> h' = h @ [Settings []]"
proof (cases n)
  case 0
  with assms show ?thesis by simp
next
  case (Suc m)
  with assms show ?thesis by (simp add: Settings_init_None)
qed

lemma building_copy_item:
  assumes rec: "copy_grows rec" and b: "building h ret g" and l: "self < length h"
    and i: "items_of h self = Inr kvs" and name: "name \<in> fst ` set kvs"
    and s: "copy_item n rec self ret name g = Inr g'"
  shows "building h ret g'"
proof -
  from b have p: "prefix h g" by (simp add: building_def)
  from prefix_items_of [OF p l] i have ig: "items_of g self = Inr kvs" by simp
  from s obtain v g1 where g1: "getitem n g self name = Inr (v, g1)"
    by (auto simp add: copy_item_def ebind_eq_Inr)
  from getitem_of_key [OF g1 ig name] have [simp]: "g1 = g" .
  from s g1 obtain v2 g2 where g2: "getitem n g self name = Inr (v2, g2)"
    by (auto simp add: copy_item_def ebind_eq_Inr split: if_splits)
  from getitem_of_key [OF g2 ig name] have [simp]: "g2 = g" .
  from g1 g2 have [simp]: "v2 = v" by simp
  show ?thesis
  proof (cases "isinstance_Settings g v")
    case False
    with s g1 have "setitem n g ret name v = Inr g'"
      by (simp add: copy_item_def)
    with b show ?thesis by (rule setitem_building)
  next
    case True
    with s g1 obtain c g3 where c: "(case v of VRef a \<Rightarrow> rec g a | _ \<Rightarrow> Inl AttributeError) = Inr (c, g3)"
      "setitem n g3 ret name (VRef c) = Inr g'"
      by (auto simp add: copy_item_def ebind_eq_Inr)
    from c(1) obtain a where "rec g a = Inr (c, g3)" by (cases v) simp_all
    with rec have "prefix g g3" by (simp add: copy_grows_def)
    from setitem_building [OF building_grow [OF b this] c(2)] show ?thesis .
  qed
qed

lemma copy_grows: "copy_grows (copy n)"
proof (induction n)
  case 0
  show ?case by (simp add: copy_grows_def)
next
  case (Suc n)
  show ?case unfolding copy_grows_def
  proof (intro allI impI)
    fix g a c g'
    assume "copy (Suc n) g a = Inr (c, g')"
    then obtain ret h0 kvs where
      init: "Settings_init n g None = Inr (ret, h0)" and c: "c = ret"
      and i: "items_of h0 a = Inr kvs"
      and loop: "for_each (copy_item n (copy n) a ret) (iter kvs) h0 = Inr g'"
      by (auto simp add: copy.simps(2) ebind_eq_Inr)
    from Settings_init_None_eq [OF init] have ret: "ret = length g" "h0 = g @ [Settings []]"
      by simp_all
    have b0: "building g ret h0" using ret by (simp add: building_def)
    have "building g ret g'"
    proof (cases "a < length g")
      case True
      with i ret have ig: "items_of g a = Inr kvs" by (simp add: items_of_def nth_append)
      from loop b0 show ?thesis
      proof (rule for_each_inv)
        fix name k k'
        assume "name \<in> set (iter kvs)" "building g ret k" "copy_item n (copy n) a ret name k = Inr k'"
        then show "building g ret k'"
          using building_copy_item [OF Suc _ True ig] by (simp add: set_iter)
      qed
    next
      case False
      with i ret have "kvs = []" by (auto simp add: items_of_def nth_append split: if_splits)
      with loop b0 show ?thesis by (simp add: iter_def sorted_native_def)
    qed
    with c ret show "c = length g \<and> prefix g g' \<and> c < length g' \<and> (\<exists>kvs. g' ! c = Settings kvs)"
      by (simp add: building_def)
  qed
qed

lemmas copy_frame = copy_grows [unfolded copy_grows_def, rule_format]

lemma call_copy_frame:
  "call_copy n h v = Inr (c, h') \<Longrightarrow>
   c = length h \<and> prefix h h' \<and> c < length h' \<and> (\<exists>kvs. h' ! c = Settings kvs)"
  by (cases v) (simp_all add: call_copy_def copy_frame)

section \<open>soft\_update only adds entries\<close>

lemma contains_self: "contains h self name = Inr b \<Longrightarrow> self < length h"
  by (auto simp add: contains_def ebind_eq_Inr items_of_Inr)

lemma contains_items: "items_of h' self = items_of h self \<Longrightarrow> contains h' self name = contains h self name"
  by (simp add: contains_def)

text \<open>The assignment of a round that found the key absent: the value is read again (and
  perhaps copied) first, which leaves the node alone.\<close>

lemma soft_assign_ext:
  assumes first: "subscript n h ob name = Inr (ov, h1)"
    and c: "contains h1 self name = Inr False"
    and again: "subscript n h1 ob name = Inr (ov2, h2)"
    and p: "prefix h2 h3"
    and s: "setitem n h3 self name w = Inr h'"
  shows "heap_ext h1 h'"
proof -
  from subscript_again [OF first again] have [simp]: "h2 = h1" .
  from contains_self [OF c] have l: "self < length h1" .
  from prefix_items_of [OF p] l have "items_of h3 self = items_of h1 self" by simp
  from contains_items [OF this] c have "contains h3 self name = Inr False" by simp
  from setitem_absent_ext [OF s this] have "heap_ext h3 h'" .
  with prefix_heap_ext [OF p] show ?thesis by (auto intro: heap_ext_trans)
qed

lemma soft_item_ext:
  assumes rec: "soft_grows rec" and s: "soft_item n rec self ob name h = Inr h'"
  shows "heap_ext h h'"
proof -
  from s obtain ov h1 where first: "subscript n h ob name = Inr (ov, h1)"
    by (auto simp add: soft_item_def ebind_eq_Inr)
  from subscript_ext [OF first] have e1: "heap_ext h h1" .
  from s first obtain b where c: "contains h1 self name = Inr b"
    by (auto simp add: soft_item_def ebind_eq_Inr split: if_splits)
  have "heap_ext h1 h'"
  proof (cases b)
    case False
    show ?thesis
    proof (cases "isinstance_Settings h1 ov")
      case True
      with s first c False obtain ov2 h2 cc h3 where
        *: "subscript n h1 ob name = Inr (ov2, h2)" "call_copy n h2 ov2 = Inr (cc, h3)"
        "setitem n h3 self name (VRef cc) = Inr h'"
        by (auto simp add: soft_item_def ebind_eq_Inr)
      from call_copy_frame [OF *(2)] have "prefix h2 h3" by simp
      from soft_assign_ext [OF first _ *(1) this *(3)] c False show ?thesis by simp
    next
      case nonode: False
      with s first c False obtain ov2 h2 where
        *: "subscript n h1 ob name = Inr (ov2, h2)" "setitem n h2 self name ov2 = Inr h'"
        by (auto simp add: soft_item_def ebind_eq_Inr)
      have "prefix h2 h2" by simp
      from soft_assign_ext [OF first _ *(1) this *(2)] c False show ?thesis by simp
    qed
  next
    case True
    show ?thesis
    proof (cases "isinstance_Settings h1 ov")
      case nonode: False
      with s first c True show ?thesis by (simp add: soft_item_def)
    next
      case node: True
      with s first c True obtain sv h2 where g: "getitem n h1 self name = Inr (sv, h2)"
        by (auto simp add: soft_item_def ebind_eq_Inr)
      from getitem_ext [OF g] have e2: "heap_ext h1 h2" .
      show ?thesis
      proof (cases "isinstance_Settings h2 sv")
        case False
        with s first c True node g have "h' = h2" by (simp add: soft_item_def)
        with e2 show ?thesis by simp
      next
        case True
        with s first c \<open>b\<close> node g obtain sv2 h3 ov2 h4 r where
          *: "getitem n h2 self name = Inr (sv2, h3)" "subscript n h3 ob name = Inr (ov2, h4)"
          "(case sv2 of VRef a \<Rightarrow> rec h4 a ov2 | _ \<Rightarrow> Inl AttributeError) = Inr (r, h')"
          by (auto simp add: soft_item_def ebind_eq_Inr)
        from *(3) obtain a where "rec h4 a ov2 = Inr (r, h')" by (cases sv2) simp_all
        with rec have "heap_ext h4 h'" by (simp add: soft_grows_def)
        with e2 getitem_ext [OF *(1)] subscript_ext [OF *(2)] show ?thesis
          by (blast intro: heap_ext_trans)
      qed
    qed
  qed
  with e1 show ?thesis by (rule heap_ext_trans)
qed

lemma soft_update_grows: "soft_grows (soft_update n)"
proof (induction n)
  case 0
  show ?case by (simp add: soft_grows_def)
next
  case (Suc n)
  show ?case unfolding soft_grows_def
  proof (intro allI impI)
    fix g a ob r g'
    assume "soft_update (Suc n) g a ob = Inr (r, g')"
    then obtain names where r: "r = a"
      and loop: "for_each (soft_item n (soft_update n) a ob) names g = Inr g'"
      by (auto simp add: soft_update.simps(2) ebind_eq_Inr)
    have "heap_ext g g" by simp
    with loop have "heap_ext g g'"
    proof (rule for_each_inv)
      fix name k k'
      assume "heap_ext g k" "soft_item n (soft_update n) a ob name k = Inr k'"
      with soft_item_ext [OF Suc] show "heap_ext g k'" by (blast intro: heap_ext_trans)
    qed
    with r show "r = a \<and> heap_ext g g'" by simp
  qed
qed

lemmas soft_update_ext = soft_update_grows [unfolded soft_grows_def, rule_format]


lemma dict_get_append: "dict_get kvs k = Some v \<Longrightarrow> dict_get (kvs @ more) k = Some v"
  by (induction kvs) (auto split: if_splits)

lemma heap_ext_items:
  assumes "heap_ext h h'" "items_of h a = Inr kvs"
  shows "\<exists>kvs'. items_of h' a = Inr kvs' \<and> prefix kvs kvs'"
proof -
  from assms(2) have a: "a < length h" "h ! a = Settings kvs" by (simp_all add: items_of_Inr)
  with assms(1) have "obj_ext (Settings kvs) (h' ! a)" "a < length h'"
    by (auto simp add: heap_ext_iff)
  then show ?thesis by (cases "h' ! a") (simp_all add: items_of_def)
qed

lemma soft_update_example:
  "soft_update (Suc (Suc (Suc n)))
     [Settings [(KStr ''a'', VInt 1), (KStr ''x'', VRef 1)], Settings [(KStr ''y'', VInt 1)],
      Settings [(KStr ''a'', VInt 2), (KStr ''x'', VRef 3)],
      Settings [(KStr ''y'', VInt 2), (KStr ''z'', VInt 3)]] 0 (VRef 2) =
   Inr (0,
     [Settings [(KStr ''a'', VInt 1), (KStr ''x'', VRef 1)],
      Settings [(KStr ''y'', VInt 1), (KStr ''z'', VInt 3)],
      Settings [(KStr ''a'', VInt 2), (KStr ''x'', VRef 3)],
      Settings [(KStr ''y'', VInt 2), (KStr ''z'', VInt 3)]])"
  by (simp add: soft_update.simps(2) soft_item_def subscript_def getitem.simps(2) contains_def
      setitem_def setitem_with_def wrap_def iterate_def iter_def sorted_native_def items_of_def
      isinstance_Settings_def isinstance_dict_def key_eq_def dict_has_def)

section \<open>soft\_update: the claim\<close>

text \<open>
  C2: whenever \<^verbatim>\<open>soft_update\<close> returns, it returns the node it was called on, and the heap
  has only been extended: every list and plain dictionary is as it was, and every
  \<^verbatim>\<open>Settings\<close> node (the receiver and every nested node, however they are shared) still has
  each entry it had, in its place and with its value, new entries coming after them. So a
  key present in the receiver keeps its value, and a nested node only gains the sub-keys it
  lacked. For S = {a: 1, x: {y: 1}} and O = {a: 2, x: {y: 2, z: 3}} the call yields
  S = {a: 1, x: {y: 1, z: 3}}, at any depth of three calls or more.
\<close>

theorem soft_update_never_overwrites:
  "(soft_update n h self other = Inr (r, h') \<longrightarrow>
      r = self \<and> heap_ext h h' \<and>
      (\<forall>kvs k v. items_of h self = Inr kvs \<and> dict_get kvs k = Some v \<longrightarrow>
         (\<exists>kvs'. items_of h' self = Inr kvs' \<and> prefix kvs kvs' \<and> dict_get kvs' k = Some v))) \<and>
   soft_update (Suc (Suc (Suc m)))
     [Settings [(KStr ''a'', VInt 1), (KStr ''x'', VRef 1)], Settings [(KStr ''y'', VInt 1)],
      Settings [(KStr ''a'', VInt 2), (KStr ''x'', VRef 3)],
      Settings [(KStr ''y'', VInt 2), (KStr ''z'', VInt 3)]] 0 (VRef 2) =
   Inr (0,
     [Settings [(KStr ''a'', VInt 1), (KStr ''x'', VRef 1)],
      Settings [(KStr ''y'', VInt 1), (KStr ''z'', VInt 3)],
      Settings [(KStr ''a'', VInt 2), (KStr ''x'', VRef 3)],
      Settings [(KStr ''y'', VInt 2), (KStr ''z'', VInt 3)]])"
proof (intro conjI impI allI)
  assume s: "soft_update n h self other = Inr (r, h')"
  from soft_update_ext [OF s] show "r = self" and e: "heap_ext h h'" by simp_all
  fix kvs k v
  assume "items_of h self = Inr kvs \<and> dict_get kvs k = Some v"
  then have i: "items_of h self = Inr kvs" and g: "dict_get kvs k = Some v" by simp_all
  from heap_ext_items [OF e i] obtain kvs' where
    k': "items_of h' self = Inr kvs'" "prefix kvs kvs'" by blast
  from k'(2) obtain more where "kvs' = kvs @ more" by (auto simp add: prefix_def)
  with dict_get_append [OF g, of more] k'
  show "\<exists>kvs'. items_of h' self = Inr kvs' \<and> prefix kvs kvs' \<and> dict_get kvs' k = Some v"
    by auto
next
  show "soft_update (Suc (Suc (Suc m)))
     [Settings [(KStr ''a'', VInt 1), (KStr ''x'', VRef 1)], Settings [(KStr ''y'', VInt 1)],
      Settings [(KStr ''a'', VInt 2), (KStr ''x'', VRef 3)],
      Settings [(KStr ''y'', VInt 2), (KStr ''z'', VInt 3)]] 0 (VRef 2) =
   Inr (0,
     [Settings [(KStr ''a'', VInt 1), (KStr ''x'', VRef 1)],
      Settings [(KStr ''y'', VInt 1), (KStr ''z'', VInt 3)],
      Settings [(KStr ''a'', VInt 2), (KStr ''x'', VRef 3)],
      Settings [(KStr ''y'', VInt 2), (KStr ''z'', VInt 3)]])"
    by (rule soft_update_example)
qed

theorem soft_update_never_overwrites_witness:
  "soft_update 3
     [Settings [(KStr ''a'', VInt 1), (KStr ''b'', VRef 2)], Dict [(KStr ''a'', VInt 2), (KStr ''c'', VRef 3)],
      PyList [VInt 7], Dict [(KStr ''d'', VInt 4)]] 0 (VRef 1) =
   Inr (0,
     [Settings [(KStr ''a'', VInt 1), (KStr ''b'', VRef 2), (KStr ''c'', VRef 4)],
      Dict [(KStr ''a'', VInt 2), (KStr ''c'', VRef 3)], PyList [VInt 7], Dict [(KStr ''d'', VInt 4)],
      Settings [(KStr ''d'', VInt 4)]]) \<and>
   heap_ext
     [Settings [(KStr ''a'', VInt 1), (KStr ''b'', VRef 2)], Dict [(KStr ''a'', VInt 2), (KStr ''c'', VRef 3)],
      PyList [VInt 7], Dict [(KStr ''d'', VInt 4)]]
     [Settings [(KStr ''a'', VInt 1), (KStr ''b'', VRef 2), (KStr ''c'', VRef 4)],
      Dict [(KStr ''a'', VInt 2), (KStr ''c'', VRef 3)], PyList [VInt 7], Dict [(KStr ''d'', VInt 4)],
      Settings [(KStr ''d'', VInt 4)]]"
proof -
  let ?H = "[Settings [(KStr ''a'', VInt 1), (KStr ''b'', VRef 2)], Dict [(KStr ''a'', VInt 2), (KStr ''c'', VRef 3)],
      PyList [VInt 7], Dict [(KStr ''d'', VInt 4)]]"
  let ?H' = "[Settings [(KStr ''a'', VInt 1), (KStr ''b'', VRef 2), (KStr ''c'', VRef 4)],
      Dict [(KStr ''a'', VInt 2), (KStr ''c'', VRef 3)], PyList [VInt 7], Dict [(KStr ''d'', VInt 4)],
      Settings [(KStr ''d'', VInt 4)]]"
  have run: "soft_update 3 ?H 0 (VRef 1) = Inr (0, ?H')"
    by code_simp
  with soft_update_never_overwrites [of 3 ?H 0 "VRef 1" 0 ?H'] have "heap_ext ?H ?H'"
    by blast
  with run show ?thesis by blast
qed

section \<open>Kinds are kept\<close>

lemma same_kinds_refl [simp]: "same_kinds h h"
  by (simp add: same_kinds_def)

lemma same_kinds_trans: "same_kinds h g \<Longrightarrow> same_kinds g k \<Longrightarrow> same_kinds h k"
  by (auto simp add: same_kinds_def)

lemma prefix_same_kinds: "prefix h h' \<Longrightarrow> same_kinds h h'"
  by (simp add: same_kinds_def prefix_nth prefix_length)

lemma same_kinds_update:
  "self < length h \<Longrightarrow> kind (h ! self) = kind ob \<Longrightarrow> same_kinds h (h[self := ob])"
  by (auto simp add: same_kinds_def nth_list_update)

lemma isinstance_dict_kind:
  "isinstance_dict h v \<longleftrightarrow> (\<exists>c. v = VRef c \<and> c < length h \<and> kind (h ! c) \<le> 1)"
  by (cases v) (auto simp add: isinstance_dict_def split: obj.splits)

lemma isinstance_list_kind:
  "isinstance_list h v \<longleftrightarrow> (\<exists>c. v = VRef c \<and> c < length h \<and> kind (h ! c) = 2)"
  by (cases v) (auto simp add: isinstance_list_def split: obj.splits)

lemma isinstance_Settings_kind:
  "isinstance_Settings h v \<longleftrightarrow> (\<exists>c. v = VRef c \<and> c < length h \<and> kind (h ! c) = 0)"
  by (cases v) (auto simp add: isinstance_Settings_def split: obj.splits)

lemma same_kinds_dict:
  "same_kinds h h' \<Longrightarrow> isinstance_dict h' v \<Longrightarrow> isinstance_dict h v \<or> val_new (length h) v"
  unfolding isinstance_dict_kind same_kinds_def val_new_def by (metis not_le_imp_less)

lemma same_kinds_list:
  "same_kinds h h' \<Longrightarrow> isinstance_list h' v \<Longrightarrow> isinstance_list h v \<or> val_new (length h) v"
  unfolding isinstance_list_kind same_kinds_def val_new_def by (metis not_le_imp_less)

lemma same_kinds_dict_keep: "same_kinds h h' \<Longrightarrow> isinstance_dict h v \<Longrightarrow> isinstance_dict h' v"
  unfolding isinstance_dict_kind same_kinds_def by (metis less_le_trans)

lemma same_kinds_list_keep: "same_kinds h h' \<Longrightarrow> isinstance_list h v \<Longrightarrow> isinstance_list h' v"
  unfolding isinstance_list_kind same_kinds_def by (metis less_le_trans)

lemma same_kinds_Settings_keep:
  "same_kinds h h' \<Longrightarrow> isinstance_Settings h v \<Longrightarrow> isinstance_Settings h' v"
  unfolding isinstance_Settings_kind same_kinds_def by (metis less_le_trans)

lemma val_new_mono: "val_new n0 v \<Longrightarrow> m \<le> n0 \<Longrightarrow> val_new m v"
  by (auto simp add: val_new_def)

lemma val_clean_keep:
  assumes "val_clean n0 h v" "same_kinds h h'" "n0 \<le> length h"
  shows "val_clean n0 h' v"
  using assms same_kinds_dict [of h h' v] same_kinds_list [of h h' v]
  by (auto simp add: val_clean_def intro: val_new_mono)

lemma elem_clean_keep:
  assumes "elem_clean n0 h v" "same_kinds h h'" "n0 \<le> length h"
  shows "elem_clean n0 h' v"
  using assms same_kinds_dict [of h h' v]
  by (auto simp add: elem_clean_def intro: val_new_mono)

lemma obj_clean_keep:
  assumes "obj_clean n0 h ob" "same_kinds h h'" "n0 \<le> length h"
  shows "obj_clean n0 h' ob"
proof (cases ob)
  case (Settings kvs)
  with assms show ?thesis
    by (auto simp add: list_all_iff intro: val_clean_keep)
next
  case (Dict kvs)
  with assms show ?thesis by simp
next
  case (PyList xs)
  with assms show ?thesis
    by (auto simp add: list_all_iff intro: elem_clean_keep)
qed

lemma val_clean_mono: "val_clean n0 h v \<Longrightarrow> m \<le> n0 \<Longrightarrow> val_clean m h v"
  by (auto simp add: val_clean_def intro: val_new_mono)

lemma elem_clean_mono: "elem_clean n0 h v \<Longrightarrow> m \<le> n0 \<Longrightarrow> elem_clean m h v"
  by (auto simp add: elem_clean_def intro: val_new_mono)

lemma obj_clean_mono: "obj_clean n0 h ob \<Longrightarrow> m \<le> n0 \<Longrightarrow> obj_clean m h ob"
  by (cases ob) (auto simp add: list_all_iff intro: val_clean_mono elem_clean_mono)

lemma clean_above_grow:
  assumes c: "clean_above n0 lo g" and p: "prefix g g'" and new: "clean_from (length g) g'"
    and n0: "n0 \<le> length g"
  shows "clean_above n0 lo g'"
  unfolding clean_above_def
proof (intro allI impI)
  fix b assume b: "lo \<le> b \<and> b < length g'"
  show "obj_clean n0 g' (g' ! b)"
  proof (cases "b < length g")
    case True
    with c b have "obj_clean n0 g (g ! b)" by (simp add: clean_above_def)
    from obj_clean_keep [OF this prefix_same_kinds [OF p] n0] prefix_nth [OF p True]
    show ?thesis by simp
  next
    case False
    with new b have "obj_clean (length g) g' (g' ! b)" by (simp add: clean_from_def)
    from obj_clean_mono [OF this n0] show ?thesis .
  qed
qed

lemma clean_above_update:
  assumes c: "clean_above n0 (Suc self) g" and s: "self < length g" "kind (g ! self) = kind ob"
    and n0: "n0 \<le> length g"
  shows "clean_above n0 (Suc self) (g[self := ob])"
  unfolding clean_above_def
proof (intro allI impI)
  fix b assume b: "Suc self \<le> b \<and> b < length (g[self := ob])"
  with c have "obj_clean n0 g (g ! b)" by (simp add: clean_above_def)
  from obj_clean_keep [OF this same_kinds_update [OF s] n0] b show "obj_clean n0 (g[self := ob]) (g[self := ob] ! b)"
    by simp
qed

section \<open>Dictionaries with good keys\<close>

lemma heap_ok_nth: "heap_ok h \<Longrightarrow> b < length h \<Longrightarrow> obj_ok (h ! b)"
  by (simp add: heap_ok_def list_all_length)

lemma heap_ok_append: "heap_ok h \<Longrightarrow> obj_ok ob \<Longrightarrow> heap_ok (h @ [ob])"
  by (simp add: heap_ok_def)

lemma heap_ok_update: "heap_ok h \<Longrightarrow> obj_ok ob \<Longrightarrow> heap_ok (h[b := ob])"
proof -
  assume a: "heap_ok h" "obj_ok ob"
  have "x \<in> set (h[b := ob]) \<Longrightarrow> obj_ok x" for x
    using a set_update_subset_insert [of h b ob] by (auto simp add: heap_ok_def list_all_iff)
  then show ?thesis by (simp add: heap_ok_def list_all_iff)
qed

lemma key_eq_plain: "\<not> is_ig a \<Longrightarrow> \<not> is_ig b \<Longrightarrow> key_eq a b \<longleftrightarrow> a = b"
  by (cases a; cases b) (simp_all add: key_eq_def)

lemma keys_ok_Cons: "keys_ok ((k, v) # kvs) \<longleftrightarrow> \<not> is_ig k \<and> k \<notin> fst ` set kvs \<and> keys_ok kvs"
  by (auto simp add: keys_ok_def)

lemma keys_ok_not_ig: "keys_ok kvs \<Longrightarrow> k \<in> fst ` set kvs \<Longrightarrow> \<not> is_ig k"
  by (auto simp add: keys_ok_def list_all_iff)

lemma dict_get_map_of: "keys_ok kvs \<Longrightarrow> \<not> is_ig k \<Longrightarrow> dict_get kvs k = map_of kvs k"
proof (induction kvs)
  case Nil
  show ?case by simp
next
  case (Cons kv kvs)
  obtain k' v where kv: "kv = (k', v)" by (cases kv)
  with Cons show ?case by (auto simp add: keys_ok_Cons key_eq_plain)
qed

lemma dict_set_nth:
  "keys_ok kvs \<Longrightarrow> i < length kvs \<Longrightarrow> fst (kvs ! i) = k \<Longrightarrow>
   dict_set kvs k v = kvs[i := (k, v)]"
proof (induction kvs arbitrary: i)
  case Nil
  then show ?case by simp
next
  case (Cons kv kvs)
  obtain k' v' where kv: "kv = (k', v')" by (cases kv)
  from Cons.prems(1) kv have ok: "\<not> is_ig k'" "k' \<notin> fst ` set kvs" "keys_ok kvs"
    by (simp_all add: keys_ok_Cons)
  show ?case
  proof (cases i)
    case 0
    with Cons.prems kv show ?thesis by (simp add: key_eq_def)
  next
    case (Suc j)
    with Cons.prems have j: "j < length kvs" "fst (kvs ! j) = k" by simp_all
    then have kin: "k \<in> fst ` set kvs" by (metis image_eqI nth_mem)
    with ok have "k \<noteq> k'" by auto
    moreover have "key_eq k' k \<longleftrightarrow> k' = k"
      using keys_ok_not_ig [OF ok(3) kin] ok(1) by (simp add: key_eq_plain)
    ultimately show ?thesis using Cons.IH [OF ok(3) j] kv Suc by auto
  qed
qed

lemma map_fst_update: "i < length kvs \<Longrightarrow> map fst (kvs[i := (fst (kvs ! i), v)]) = map fst kvs"
  by (simp add: list_eq_iff_nth_eq nth_list_update)

lemma keys_ok_update: "keys_ok kvs \<Longrightarrow> i < length kvs \<Longrightarrow> keys_ok (kvs[i := (fst (kvs ! i), v)])"
  by (simp add: keys_ok_def map_fst_update)

lemma resolve_not_ig: "\<not> is_ig k \<Longrightarrow> resolve kvs k = Inr k"
  by (simp add: resolve_def)

section \<open>The constructor leaves clean objects\<close>

lemma for_each_upt:
  assumes "for_each f [i..<m] h = Inr h'" and "I i h" and "i \<le> m"
    and "\<And>j g g'. i \<le> j \<Longrightarrow> j < m \<Longrightarrow> I j g \<Longrightarrow> f j g = Inr g' \<Longrightarrow> I (Suc j) g'"
  shows "I m h'"
  using assms
proof (induction "m - i" arbitrary: i h)
  case 0
  then show ?case by simp
next
  case (Suc d)
  from Suc.hyps(2) have lt: "i < m" by simp
  then have upt: "[i..<m] = i # [Suc i..<m]" by (rule upt_conv_Cons)
  from Suc.prems(1) upt obtain g where g: "f i h = Inr g" "for_each f [Suc i..<m] g = Inr h'"
    by (auto split: sum.splits)
  have Ig: "I (Suc i) g" using Suc.prems(2) g(1) lt by (intro Suc.prems(4) [of i h g]) simp_all
  have d: "d = m - Suc i" using Suc.hyps(2) by simp
  show ?case
  proof (rule Suc.hyps(1) [OF d g(2) Ig])
    show "Suc i \<le> m" using lt by simp
    fix j k k' assume "Suc i \<le> j" "j < m" "I j k" "f j k = Inr k'"
    then show "I (Suc j) k'" by (intro Suc.prems(4) [of j k k']) simp_all
  qed
qed

lemma ctor_cleanD:
  "ctor_clean ctor \<Longrightarrow> heap_ok g \<Longrightarrow> ctor g x = Inr (s, g') \<Longrightarrow> heap_ok g' \<and> clean_from (length g) g'"
  by (simp add: ctor_clean_def)

lemma ctor_growsD:
  "ctor_grows ctor \<Longrightarrow> ctor g x = Inr (s, g') \<Longrightarrow>
   s = length g \<and> prefix g g' \<and> s < length g' \<and> (\<exists>kvs. g' ! s = Settings kvs)"
  by (simp add: ctor_grows_def)

lemma val_new_clean: "val_new n0 w \<Longrightarrow> val_clean n0 h w"
  by (simp add: val_clean_def)

text \<open>Wrapping: the value kept is no mapping, the value made is new.\<close>

lemma wrap_clean:
  assumes cg: "ctor_grows ctor" and cc: "ctor_clean ctor" and ok: "heap_ok g"
    and ca: "clean_above n0 lo g" and n0: "n0 \<le> length g"
    and w: "wrap ctor g x = Inr (y, g')"
  shows "prefix g g' \<and> heap_ok g' \<and> clean_above n0 lo g' \<and>
    (y = x \<and> \<not> isinstance_dict g x \<and> g' = g \<or> val_new (length g) y \<and> isinstance_Settings g' y)"
  using w
proof (cases rule: wrap_cases)
  case keep
  with ok ca show ?thesis by simp
next
  case (new s)
  from ctor_growsD [OF cg new(2)] have s: "s = length g" "prefix g g'" "s < length g'"
    "\<exists>kvs. g' ! s = Settings kvs" by blast+
  from ctor_cleanD [OF cc ok new(2)] have c: "heap_ok g'" "clean_from (length g) g'" by simp_all
  from clean_above_grow [OF ca s(2) c(2) n0] have "clean_above n0 lo g'" .
  moreover have "isinstance_Settings g' y" using s new(3) by (auto simp add: isinstance_Settings_def)
  ultimately show ?thesis using s c new(3) by (simp add: val_new_def)
qed

lemma wrap_elems_clean:
  assumes cg: "ctor_grows ctor" and cc: "ctor_clean ctor"
  shows "heap_ok g \<Longrightarrow> clean_above n0 lo g \<Longrightarrow> n0 \<le> length g \<Longrightarrow>
    wrap_elems ctor xs g = Inr (ys, g') \<Longrightarrow>
    prefix g g' \<and> heap_ok g' \<and> clean_above n0 lo g' \<and> list_all (elem_clean n0 g') ys"
proof (induction xs arbitrary: g ys)
  case Nil
  then show ?case by simp
next
  case (Cons x xs)
  from Cons.prems(4) obtain y g1 ys' where *: "wrap ctor g x = Inr (y, g1)"
    "wrap_elems ctor xs g1 = Inr (ys', g')" "ys = y # ys'"
    by (auto split: sum.splits prod.splits)
  from wrap_clean [OF cg cc Cons.prems(1,2,3) *(1)]
  have w: "prefix g g1" "heap_ok g1" "clean_above n0 lo g1"
    "y = x \<and> \<not> isinstance_dict g x \<and> g1 = g \<or> val_new (length g) y \<and> isinstance_Settings g1 y"
    by simp_all
  have n1: "n0 \<le> length g1" using Cons.prems(3) prefix_length [OF w(1)] by simp
  from Cons.IH [OF w(2,3) n1 *(2)]
  have r: "prefix g1 g'" "heap_ok g'" "clean_above n0 lo g'" "list_all (elem_clean n0 g') ys'"
    by simp_all
  have "elem_clean n0 g' y"
  proof (cases "val_new (length g) y")
    case True
    from val_new_mono [OF this Cons.prems(3)] show ?thesis by (simp add: elem_clean_def)
  next
    case False
    with w(4) have "\<not> isinstance_dict g y" by auto
    have sk: "same_kinds g g'" using w(1) r(1) by (meson prefix_order.trans prefix_same_kinds)
    show ?thesis unfolding elem_clean_def
    proof
      assume "isinstance_dict g' y"
      from same_kinds_dict [OF sk this] \<open>\<not> isinstance_dict g y\<close> have "val_new (length g) y" by simp
      from val_new_mono [OF this Cons.prems(3)] show "val_new n0 y" .
    qed
  qed
  with r w(1) *(3) show ?case by (auto intro: prefix_order.trans)
qed

lemma init_invD:
  assumes "init_inv h kvs0 i g"
  obtains kvs where "building h (length h) g" "heap_ok g"
    "clean_above (length h) (Suc (length h)) g" "g ! length h = Settings kvs"
    "map fst kvs = map fst kvs0" "\<forall>j<i. val_clean (length h) g (snd (kvs ! j))"
    "length h < length g" "prefix h g"
  using assms by (auto simp add: init_inv_def building_def)

text \<open>Assigning a new object to the \<open>i\<close>-th key of the node under construction.\<close>

lemma init_assign:
  assumes cg: "ctor_grows ctor" and cc: "ctor_clean ctor"
    and inv: "init_inv h kvs0 i g" and k0: "keys_ok kvs0" and i: "i < length kvs0"
    and w: "val_new (length h) w"
    and s: "setitem_with ctor g (length h) (fst (kvs0 ! i)) w = Inr g'"
  shows "init_inv h kvs0 (Suc i) g'"
proof -
  let ?n = "length h"
  let ?k = "fst (kvs0 ! i)"
  from inv obtain kvs where b: "building h ?n g" and ok: "heap_ok g"
    and ca: "clean_above ?n (Suc ?n) g" and kv: "g ! ?n = Settings kvs"
    and keys: "map fst kvs = map fst kvs0"
    and dn: "\<forall>j<i. val_clean ?n g (snd (kvs ! j))" and lg: "?n < length g"
    by (rule init_invD)
  from keys have len: "length kvs = length kvs0" by (metis length_map)
  from keys i len have ki: "fst (kvs ! i) = ?k" by (metis nth_map)
  from k0 keys have kok: "keys_ok kvs" by (simp add: keys_ok_def)
  from k0 i have nig: "\<not> is_ig ?k" by (auto simp add: keys_ok_def list_all_length)
  from cg s obtain kvs' k' w' g1 where *: "items_of g ?n = Inr kvs'" "resolve kvs' ?k = Inr k'"
    "wrap ctor g w = Inr (w', g1)" "prefix g g1"
    "g' = g1[?n := Settings (dict_set kvs' k' w')]"
    by (rule setitem_with_shape)
  from *(1) kv have [simp]: "kvs' = kvs" by (simp add: items_of_Inr)
  from *(2) nig have [simp]: "k' = ?k" by (simp add: resolve_not_ig)
  from dict_set_nth [OF kok _ ki] i len have ds: "dict_set kvs ?k w' = kvs[i := (?k, w')]" by simp
  from wrap_clean [OF cg cc ok ca _ *(3)] lg
  have wc: "heap_ok g1" "clean_above ?n (Suc ?n) g1"
    "w' = w \<and> \<not> isinstance_dict g w \<and> g1 = g \<or> val_new (length g) w' \<and> isinstance_Settings g1 w'"
    by simp_all
  have wnew: "val_new ?n w'"
  proof (cases "w' = w")
    case True
    with w show ?thesis by simp
  next
    case False
    with wc(3) have "val_new (length g) w'" by auto
    with lg show ?thesis by (auto intro: val_new_mono)
  qed
  have l1: "?n < length g1" using lg prefix_length [OF *(4)] by simp
  have kv1: "g1 ! ?n = Settings kvs" using prefix_nth [OF *(4) lg] kv by simp
  let ?new = "Settings (kvs[i := (?k, w')])"
  have g': "g' = g1[?n := ?new]" using *(5) ds by simp
  have sk1: "same_kinds g1 g'" unfolding g' using l1 kv1 by (intro same_kinds_update) simp_all
  have sk: "same_kinds g g'" using prefix_same_kinds [OF *(4)] sk1 by (rule same_kinds_trans)
  have b': "building h ?n g'" using cg b s by (rule building_setitem)
  have ok': "heap_ok g'" unfolding g'
  proof (rule heap_ok_update [OF wc(1)])
    from keys_ok_update [OF kok, of i w'] i len ki show "obj_ok ?new" by simp
  qed
  have ca': "clean_above ?n (Suc ?n) g'" unfolding g'
    using wc(2) l1 kv1 by (intro clean_above_update) simp_all
  have at: "g' ! ?n = ?new" unfolding g' using l1 by simp
  have keys': "map fst (kvs[i := (?k, w')]) = map fst kvs0"
    using map_fst_update [of i kvs w'] i len ki keys by simp
  have done': "\<forall>j<Suc i. val_clean ?n g' (snd (kvs[i := (?k, w')] ! j))"
  proof (intro allI impI)
    fix j assume j: "j < Suc i"
    show "val_clean ?n g' (snd (kvs[i := (?k, w')] ! j))"
    proof (cases "j = i")
      case True
      with i len wnew show ?thesis by (simp add: val_new_clean)
    next
      case False
      with j dn have "val_clean ?n g (snd (kvs ! j))" by simp
      from val_clean_keep [OF this sk] lg False show ?thesis by simp
    qed
  qed
  from b' ok' ca' at keys' done' show ?thesis unfolding init_inv_def by blast
qed

lemma init_inv_grow:
  assumes inv: "init_inv h kvs0 i g" and p: "prefix g g1" and ok: "heap_ok g1"
    and new: "clean_above (length h) (Suc (length h)) g1"
  shows "init_inv h kvs0 i g1"
proof -
  let ?n = "length h"
  from inv obtain kvs where b: "building h ?n g"
    and kv: "g ! ?n = Settings kvs" and keys: "map fst kvs = map fst kvs0"
    and dn: "\<forall>j<i. val_clean ?n g (snd (kvs ! j))" and lg: "?n < length g"
    by (rule init_invD)
  have "\<forall>j<i. val_clean ?n g1 (snd (kvs ! j))"
    using dn val_clean_keep [OF _ prefix_same_kinds [OF p]] lg by auto
  moreover have "g1 ! ?n = Settings kvs" using prefix_nth [OF p lg] kv by simp
  ultimately show ?thesis
    using building_grow [OF b p] ok new keys unfolding init_inv_def by blast
qed

lemma init_inv_skip:
  assumes inv: "init_inv h kvs0 i g" and i: "i < length kvs0"
    and v: "\<forall>kvs. g ! length h = Settings kvs \<longrightarrow> val_clean (length h) g (snd (kvs ! i))"
  shows "init_inv h kvs0 (Suc i) g"
proof -
  from inv obtain kvs where *: "building h (length h) g" "heap_ok g"
    "clean_above (length h) (Suc (length h)) g" "g ! length h = Settings kvs"
    "map fst kvs = map fst kvs0" "\<forall>j<i. val_clean (length h) g (snd (kvs ! j))"
    by (rule init_invD)
  from v *(4) have "val_clean (length h) g (snd (kvs ! i))" by simp
  with *(6) have "\<forall>j<Suc i. val_clean (length h) g (snd (kvs ! j))"
    by (auto simp add: less_Suc_eq)
  with * show ?thesis unfolding init_inv_def by blast
qed

lemma init_item_clean:
  assumes cg: "ctor_grows ctor" and cc: "ctor_clean ctor"
    and inv: "init_inv h kvs0 i g" and k0: "keys_ok kvs0" and i: "i < length kvs0"
    and s: "init_item ctor (length h) i g = Inr g'"
  shows "init_inv h kvs0 (Suc i) g'"
proof -
  let ?n = "length h"
  from inv obtain kvs where b: "building h ?n g" and ok: "heap_ok g"
    and ca: "clean_above ?n (Suc ?n) g" and kv: "g ! ?n = Settings kvs"
    and keys: "map fst kvs = map fst kvs0" and lg: "?n < length g"
    by (rule init_invD)
  from keys have len: "length kvs = length kvs0" by (metis length_map)
  from keys i len have ki: "fst (kvs ! i) = fst (kvs0 ! i)" by (metis nth_map)
  from kv lg have it: "items_of g ?n = Inr kvs" by (simp add: items_of_Inr)
  obtain k v where kvi: "kvs ! i = (k, v)" by (cases "kvs ! i")
  with ki have k: "k = fst (kvs0 ! i)" by simp
  from s it kvi i len obtain h1 where
    h1: "(if isinstance_dict g v
          then ebind (ctor g (Some v)) (\<lambda>(s, h'). setitem_with ctor h' ?n k (VRef s))
          else Inr g) = Inr h1"
    and rest: "(if isinstance_list h1 v
       then (case h1 ! (case v of VRef a \<Rightarrow> a | _ \<Rightarrow> 0) of
               PyList xs \<Rightarrow>
                 ebind (wrap_elems ctor xs h1) (\<lambda>(ys, h2).
                 let (l, h3) = alloc h2 (PyList ys) in
                 setitem_with ctor h3 ?n k (VRef l))
             | _ \<Rightarrow> Inl TypeError)
       else Inr h1) = Inr g'"
    by (auto simp add: init_item_def ebind_eq_Inr)
  show ?thesis
  proof (cases "isinstance_dict g v")
    case True
    with h1 obtain s ga where c: "ctor g (Some v) = Inr (s, ga)"
      "setitem_with ctor ga ?n k (VRef s) = Inr h1"
      by (auto simp add: ebind_eq_Inr)
    from ctor_growsD [OF cg c(1)] have sg: "s = length g" "prefix g ga" by simp_all
    from ctor_cleanD [OF cc ok c(1)] have cl: "heap_ok ga" "clean_from (length g) ga" by simp_all
    from clean_above_grow [OF ca sg(2) cl(2)] lg have "clean_above ?n (Suc ?n) ga" by simp
    from init_inv_grow [OF inv sg(2) cl(1) this] have inva: "init_inv h kvs0 i ga" .
    have "val_new ?n (VRef s)" using sg(1) lg by (simp add: val_new_def)
    from init_assign [OF cg cc inva k0 i this] c(2) k
    have inv1: "init_inv h kvs0 (Suc i) h1" by simp
    have sk: "same_kinds g h1"
    proof -
      from inv1 have "prefix h h1" by (rule init_invD)
      from cg c(2) obtain gb kvs'' where "prefix ga gb" "h1 = gb[?n := Settings kvs'']"
        by (rule setitem_with_shape)
      moreover have "gb ! ?n = Settings kvs"
        using prefix_nth [OF \<open>prefix ga gb\<close>] prefix_nth [OF sg(2) lg] kv
          prefix_length [OF sg(2)] lg by simp
      moreover have "?n < length gb"
        using prefix_length [OF \<open>prefix ga gb\<close>] prefix_length [OF sg(2)] lg by simp
      ultimately have "same_kinds gb h1" by (simp add: same_kinds_update)
      with prefix_same_kinds [OF sg(2)] prefix_same_kinds [OF \<open>prefix ga gb\<close>]
      show ?thesis by (blast intro: same_kinds_trans)
    qed
    have "\<not> isinstance_list h1 v"
    proof
      assume "isinstance_list h1 v"
      from same_kinds_list [OF sk this] True show False
        unfolding isinstance_list_kind isinstance_dict_kind val_new_def by auto
    qed
    with rest inv1 show ?thesis by simp
  next
    case False
    with h1 have [simp]: "h1 = g" by simp
    show ?thesis
    proof (cases "isinstance_list g v")
      case nolist: False
      with rest have "g' = g" by simp
      moreover have "val_clean ?n g v" using False nolist by (simp add: val_clean_def)
      ultimately show ?thesis using init_inv_skip [OF inv i] kv kvi by simp
    next
      case True
      then obtain c xs where v: "v = VRef c" "c < length g" "g ! c = PyList xs"
        by (cases v) (auto simp add: isinstance_list_def split: obj.splits)
      with rest True obtain ys g2 where w: "wrap_elems ctor xs g = Inr (ys, g2)"
        "setitem_with ctor (g2 @ [PyList ys]) ?n k (VRef (length g2)) = Inr g'"
        by (auto simp add: ebind_eq_Inr alloc_def)
      from wrap_elems_clean [OF cg cc ok ca _ w(1)] lg
      have e: "prefix g g2" "heap_ok g2" "clean_above ?n (Suc ?n) g2" "list_all (elem_clean ?n g2) ys"
        by simp_all
      let ?g3 = "g2 @ [PyList ys]"
      have p3: "prefix g ?g3" using e(1) by (rule prefix_order.trans) simp
      have l2: "?n \<le> length g2" using lg prefix_length [OF e(1)] by simp
      have ok3: "heap_ok ?g3" using e(2) by (rule heap_ok_append) simp
      have sk23: "same_kinds g2 ?g3" by (rule prefix_same_kinds) simp
      have ca3: "clean_above ?n (Suc ?n) ?g3"
        unfolding clean_above_def
      proof (intro allI impI)
        fix b assume b: "Suc ?n \<le> b \<and> b < length ?g3"
        show "obj_clean ?n ?g3 (?g3 ! b)"
        proof (cases "b < length g2")
          case True
          with e(3) b have "obj_clean ?n g2 (g2 ! b)" by (simp add: clean_above_def)
          from obj_clean_keep [OF this sk23 l2] True show ?thesis by (simp add: nth_append)
        next
          case False
          with b have "b = length g2" by simp
          moreover have "list_all (elem_clean ?n ?g3) ys"
            using e(4) elem_clean_keep [OF _ sk23 l2] by (auto simp add: list_all_iff)
          ultimately show ?thesis by simp
        qed
      qed
      from init_inv_grow [OF inv p3 ok3 ca3] have inv3: "init_inv h kvs0 i ?g3" .
      have "val_new ?n (VRef (length g2))" using l2 by (simp add: val_new_def)
      from init_assign [OF cg cc inv3 k0 i this] w(2) k show ?thesis by simp
    qed
  qed
qed

lemma dict_init_keys_ok: "heap_ok h \<Longrightarrow> dict_init h src = Inr kvs \<Longrightarrow> keys_ok kvs"
  by (auto simp add: dict_init_def keys_ok_def split: option.splits val.splits if_splits obj.splits
      dest: heap_ok_nth)

lemma Settings_init_clean: "ctor_clean (Settings_init n)"
proof (induction n)
  case 0
  show ?case by (simp add: ctor_clean_def)
next
  case (Suc n)
  show ?case unfolding ctor_clean_def
  proof (intro allI impI)
    fix h x s g'
    assume a: "heap_ok h \<and> Settings_init (Suc n) h x = Inr (s, g')"
    then have ok: "heap_ok h" by simp
    from a obtain kvs0 where d: "dict_init h x = Inr kvs0"
      and loop: "for_each (init_item (Settings_init n) (length h)) [0..<length kvs0] (h @ [Settings kvs0]) = Inr g'"
      by (auto simp add: Settings_init.simps(2) ebind_eq_Inr alloc_def)
    from dict_init_keys_ok [OF ok d] have k0: "keys_ok kvs0" .
    have "init_inv h kvs0 0 (h @ [Settings kvs0])"
      using ok k0 by (auto simp add: init_inv_def building_def heap_ok_append clean_above_def)
    with loop have "init_inv h kvs0 (length kvs0) g'"
    proof (rule for_each_upt)
      fix j k k'
      assume "j < length kvs0" "init_inv h kvs0 j k" "init_item (Settings_init n) (length h) j k = Inr k'"
      then show "init_inv h kvs0 (Suc j) k'"
        using init_item_clean [OF Settings_init_grows Suc _ k0] by blast
    qed simp
    then obtain kvs where *: "heap_ok g'" "clean_above (length h) (Suc (length h)) g'"
      "g' ! length h = Settings kvs" "map fst kvs = map fst kvs0"
      "\<forall>j<length kvs0. val_clean (length h) g' (snd (kvs ! j))"
      by (rule init_invD)
    from *(4) have "length kvs = length kvs0" by (metis length_map)
    with *(5) have "list_all (\<lambda>(k, v). val_clean (length h) g' v) kvs"
      by (auto simp add: list_all_length split_beta)
    with *(3) have self: "obj_clean (length h) g' (g' ! length h)" by simp
    have "clean_from (length h) g'" unfolding clean_from_def
    proof (intro allI impI)
      fix b assume b: "length h \<le> b \<and> b < length g'"
      show "obj_clean (length h) g' (g' ! b)"
      proof (cases "b = length h")
        case True
        with self show ?thesis by simp
      next
        case False
        with b *(2) show ?thesis by (simp add: clean_above_def)
      qed
    qed
    with *(1) show "heap_ok g' \<and> clean_from (length h) g'" by simp
  qed
qed

lemmas Settings_init_cleanD = ctor_cleanD [OF Settings_init_clean]

section \<open>No plain mapping inside what the constructor builds\<close>

lemma inside_clean:
  assumes c: "clean_from n0 g" and r: "n0 \<le> r" "r < length g" and i: "inside g r b"
  shows "n0 \<le> b \<and> b < length g"
  using i
proof (induction rule: inside.induct)
  case in_root
  from r show ?case by simp
next
  case (in_value b kvs c')
  from in_value.IH c have oc: "obj_clean n0 g (g ! b)" by (simp add: clean_from_def)
  from in_value.hyps(3) oc have s: "g ! b = Settings kvs" by auto
  from in_value.hyps(4) obtain k where "(k, VRef c') \<in> set kvs" by auto
  with oc s have "val_clean n0 g (VRef c')" by (auto simp add: list_all_iff)
  moreover have "isinstance_dict g (VRef c') \<or> isinstance_list g (VRef c')"
    using in_value.hyps(5) by (cases "g ! c'") (simp_all add: isinstance_dict_def isinstance_list_def)
  ultimately show ?case using in_value.hyps(5) by (simp add: val_clean_def val_new_def)
next
  case (in_element b xs c')
  from in_element.IH c have oc: "obj_clean n0 g (g ! b)" by (simp add: clean_from_def)
  with in_element.hyps(3,4) have "elem_clean n0 g (VRef c')" by (simp add: list_all_iff)
  with in_element.hyps(5) show ?case
    by (auto simp add: elem_clean_def val_new_def isinstance_dict_def)
qed

lemma clean_not_Dict: "clean_from n0 g \<Longrightarrow> n0 \<le> b \<Longrightarrow> b < length g \<Longrightarrow> kind (g ! b) \<noteq> 1"
  by (cases "g ! b") (auto simp add: clean_from_def)

lemma dict_get_dict_set: "dict_get (dict_set kvs k v) k = Some v"
  by (induction kvs) (auto simp add: key_eq_def)

lemma Settings_init_inside:
  assumes ok: "heap_ok h" and s: "Settings_init n h src = Inr (r, h')" and i: "inside h' r b"
  shows "b < length h' \<and> kind (h' ! b) \<noteq> 1"
proof -
  from Settings_init_frame [OF s] have r: "r = length h" "r < length h'" by simp_all
  from Settings_init_cleanD [OF ok s] have c: "clean_from (length h) h'" by simp
  from inside_clean [OF c _ r(2) i] r(1) have "length h \<le> b \<and> b < length h'" by simp
  with clean_not_Dict [OF c] show ?thesis by simp
qed

lemma setitem_mapping_inside:
  assumes ok: "heap_ok h" and nig: "\<not> is_ig name" and d: "isinstance_dict h v"
    and s: "setitem n h self name v = Inr h'"
  shows "\<exists>c kvs'. items_of h' self = Inr kvs' \<and> dict_get kvs' name = Some (VRef c) \<and>
     (\<forall>b. inside h' c b \<longrightarrow> b < length h' \<and> kind (h' ! b) \<noteq> 1)"
proof -
  from Settings_init_grows s [unfolded setitem_def]
  obtain kvs k v' h1 where *: "items_of h self = Inr kvs" "resolve kvs name = Inr k"
    "wrap (Settings_init n) h v = Inr (v', h1)" "prefix h h1" "self < length h"
    "h' = h1[self := Settings (dict_set kvs k v')]"
    by (rule setitem_with_shape)
  from *(2) nig have [simp]: "k = name" by (simp add: resolve_not_ig)
  from *(3) d obtain c where c: "Settings_init n h (Some v) = Inr (c, h1)" "v' = VRef c"
    by (auto elim: wrap_cases)
  from Settings_init_frame [OF c(1)] have cf: "c = length h" "c < length h1" by simp_all
  from Settings_init_cleanD [OF ok c(1)] have cl: "clean_from (length h) h1" by simp
  have l1: "self < length h1" using *(5) prefix_length [OF *(4)] by simp
  have "h1 ! self = Settings kvs" using prefix_nth [OF *(4,5)] *(1) by (simp add: items_of_Inr)
  then have sk: "same_kinds h1 h'" unfolding *(6) using l1 by (intro same_kinds_update) simp_all
  have cl': "clean_from (length h) h'" unfolding clean_from_def
  proof (intro allI impI)
    fix b assume b: "length h \<le> b \<and> b < length h'"
    with *(5,6) have "b \<noteq> self" "b < length h1" by simp_all
    with cl b have "obj_clean (length h) h1 (h1 ! b)" by (simp add: clean_from_def)
    from obj_clean_keep [OF this sk] prefix_length [OF *(4)] \<open>b \<noteq> self\<close> *(6)
    show "obj_clean (length h) h' (h' ! b)" by simp
  qed
  have it: "items_of h' self = Inr (dict_set kvs name v')"
    using l1 *(6) by (simp add: items_of_Inr)
  have "\<forall>b. inside h' c b \<longrightarrow> b < length h' \<and> kind (h' ! b) \<noteq> 1"
  proof (intro allI impI)
    fix b assume "inside h' c b"
    from inside_clean [OF cl' _ _ this] cf *(6) have "length h \<le> b \<and> b < length h'" by simp
    with clean_not_Dict [OF cl'] show "b < length h' \<and> kind (h' ! b) \<noteq> 1" by simp
  qed
  with it c(2) dict_get_dict_set [of kvs name v'] show ?thesis by auto
qed

section \<open>The constructor: the claim\<close>

text \<open>
  C6 (amended): in a heap whose dictionaries have pairwise different keys, none of them an
  \<^verbatim>\<open>ig\<close> instance, after \<^verbatim>\<open>Settings(source)\<close> and after assigning a mapping under a key, what
  is inside the new node holds no plain mapping: every mapping that is a value of a mapping
  at any depth, or an element of a list that is such a value, has become a node. Mappings
  inside a sub-sequence (a list in a list) stay as they are, and nothing is said of a list
  that is assigned.
\<close>

theorem no_raw_mapping_inside:
  "(heap_ok h \<and> Settings_init n h src = Inr (r, h') \<longrightarrow>
      (\<forall>b. inside h' r b \<longrightarrow> b < length h' \<and> kind (h' ! b) \<noteq> 1)) \<and>
   (heap_ok h \<and> \<not> is_ig name \<and> isinstance_dict h v \<and> setitem n h self name v = Inr h' \<longrightarrow>
      (\<exists>c kvs'. items_of h' self = Inr kvs' \<and> dict_get kvs' name = Some (VRef c) \<and>
         (\<forall>b. inside h' c b \<longrightarrow> b < length h' \<and> kind (h' ! b) \<noteq> 1)))"
  using Settings_init_inside setitem_mapping_inside by blast

text \<open>
  The witness: \<^verbatim>\<open>Settings({'a': {'b': 1}, 'l': [{'c': 2}, 3]})\<close>. The new node is at address 4,
  its values are the nodes and the list at 6, 8 and 9, and nothing inside it is a plain
  dictionary.
\<close>

theorem no_raw_mapping_inside_witness:
  "Settings_init 3
     [Dict [(KStr ''b'', VInt 1)], Dict [(KStr ''c'', VInt 2)], PyList [VRef 1, VInt 3],
      Dict [(KStr ''a'', VRef 0), (KStr ''l'', VRef 2)]] (Some (VRef 3)) =
   Inr (4,
     [Dict [(KStr ''b'', VInt 1)], Dict [(KStr ''c'', VInt 2)], PyList [VRef 1, VInt 3],
      Dict [(KStr ''a'', VRef 0), (KStr ''l'', VRef 2)],
      Settings [(KStr ''a'', VRef 6), (KStr ''l'', VRef 8)],
      Settings [(KStr ''b'', VInt 1)], Settings [(KStr ''b'', VInt 1)],
      Settings [(KStr ''c'', VInt 2)], PyList [VRef 7, VInt 3]]) \<and>
   kind ([Dict [(KStr ''b'', VInt 1)], Dict [(KStr ''c'', VInt 2)], PyList [VRef 1, VInt 3],
      Dict [(KStr ''a'', VRef 0), (KStr ''l'', VRef 2)],
      Settings [(KStr ''a'', VRef 6), (KStr ''l'', VRef 8)],
      Settings [(KStr ''b'', VInt 1)], Settings [(KStr ''b'', VInt 1)],
      Settings [(KStr ''c'', VInt 2)], PyList [VRef 7, VInt 3]] ! 7) \<noteq> 1 \<and>
   setitem 3 [Settings [], Dict [(KStr ''b'', VInt 1)]] 0 (KStr ''a'') (VRef 1) =
     Inr [Settings [(KStr ''a'', VRef 2)], Dict [(KStr ''b'', VInt 1)], Settings [(KStr ''b'', VInt 1)]] \<and>
   (\<exists>c kvs'. items_of [Settings [(KStr ''a'', VRef 2)], Dict [(KStr ''b'', VInt 1)],
                          Settings [(KStr ''b'', VInt 1)]] 0 = Inr kvs' \<and>
      dict_get kvs' (KStr ''a'') = Some (VRef c) \<and>
      (\<forall>b. inside [Settings [(KStr ''a'', VRef 2)], Dict [(KStr ''b'', VInt 1)],
                     Settings [(KStr ''b'', VInt 1)]] c b \<longrightarrow>
         b < length [Settings [(KStr ''a'', VRef 2)], Dict [(KStr ''b'', VInt 1)],
                     Settings [(KStr ''b'', VInt 1)]] \<and>
         kind ([Settings [(KStr ''a'', VRef 2)], Dict [(KStr ''b'', VInt 1)],
                Settings [(KStr ''b'', VInt 1)]] ! b) \<noteq> 1))"
proof -
  let ?H = "[Dict [(KStr ''b'', VInt 1)], Dict [(KStr ''c'', VInt 2)], PyList [VRef 1, VInt 3],
      Dict [(KStr ''a'', VRef 0), (KStr ''l'', VRef 2)]]"
  let ?H' = "[Dict [(KStr ''b'', VInt 1)], Dict [(KStr ''c'', VInt 2)], PyList [VRef 1, VInt 3],
      Dict [(KStr ''a'', VRef 0), (KStr ''l'', VRef 2)],
      Settings [(KStr ''a'', VRef 6), (KStr ''l'', VRef 8)],
      Settings [(KStr ''b'', VInt 1)], Settings [(KStr ''b'', VInt 1)],
      Settings [(KStr ''c'', VInt 2)], PyList [VRef 7, VInt 3]]"
  let ?G = "[Settings [], Dict [(KStr ''b'', VInt 1)]]"
  let ?G' = "[Settings [(KStr ''a'', VRef 2)], Dict [(KStr ''b'', VInt 1)], Settings [(KStr ''b'', VInt 1)]]"
  have run: "Settings_init 3 ?H (Some (VRef 3)) = Inr (4, ?H')"
    by code_simp
  have ok: "heap_ok ?H"
    by (simp add: heap_ok_def keys_ok_def)
  have "inside ?H' 4 4" by (rule in_root)
  then have "inside ?H' 4 8"
    by (rule in_value [where kvs = "[(KStr ''a'', VRef 6), (KStr ''l'', VRef 8)]"]) simp_all
  then have "inside ?H' 4 7"
    by (rule in_element [where xs = "[VRef 7, VInt 3]"]) (simp_all add: isinstance_dict_def)
  with no_raw_mapping_inside [of ?H 3 "Some (VRef 3)" 4 ?H'] ok run
  have 1: "kind (?H' ! 7) \<noteq> 1" by blast
  have set: "setitem 3 ?G 0 (KStr ''a'') (VRef 1) = Inr ?G'"
    by code_simp
  have pre: "heap_ok ?G \<and> \<not> is_ig (KStr ''a'') \<and> isinstance_dict ?G (VRef 1)"
    by (simp add: heap_ok_def keys_ok_def isinstance_dict_def)
  from no_raw_mapping_inside [where h = ?G and n = 3 and name = "KStr ''a''" and v = "VRef 1"
      and self = 0 and h' = ?G'] pre set
  have 2: "\<exists>c kvs'. items_of ?G' 0 = Inr kvs' \<and> dict_get kvs' (KStr ''a'') = Some (VRef c) \<and>
      (\<forall>b. inside ?G' c b \<longrightarrow> b < length ?G' \<and> kind (?G' ! b) \<noteq> 1)"
    by blast
  show ?thesis by (intro conjI) (rule run, rule 1, rule set, rule 2)
qed

text \<open>
  C6 as stated fails: \<^verbatim>\<open>Settings({'a': [[{'x': 1}]]})\<close> returns the node at address 4, whose
  value under \<^verbatim>\<open>a\<close> is the new list at 5; that list holds the inner list at 1, which still
  holds the plain dictionary at 0.
\<close>

theorem raw_mapping_in_sublist_counterexample:
  "Settings_init 3
     [Dict [(KStr ''x'', VInt 1)], PyList [VRef 0], PyList [VRef 1], Dict [(KStr ''a'', VRef 2)]]
     (Some (VRef 3)) =
   Inr (4,
     [Dict [(KStr ''x'', VInt 1)], PyList [VRef 0], PyList [VRef 1], Dict [(KStr ''a'', VRef 2)],
      Settings [(KStr ''a'', VRef 5)], PyList [VRef 1]]) \<and>
   anywhere
     [Dict [(KStr ''x'', VInt 1)], PyList [VRef 0], PyList [VRef 1], Dict [(KStr ''a'', VRef 2)],
      Settings [(KStr ''a'', VRef 5)], PyList [VRef 1]] 4 0 \<and>
   kind ([Dict [(KStr ''x'', VInt 1)], PyList [VRef 0], PyList [VRef 1], Dict [(KStr ''a'', VRef 2)],
      Settings [(KStr ''a'', VRef 5)], PyList [VRef 1]] ! 0) = 1"
proof -
  let ?H' = "[Dict [(KStr ''x'', VInt 1)], PyList [VRef 0], PyList [VRef 1], Dict [(KStr ''a'', VRef 2)],
      Settings [(KStr ''a'', VRef 5)], PyList [VRef 1]]"
  have run: "Settings_init 3
     [Dict [(KStr ''x'', VInt 1)], PyList [VRef 0], PyList [VRef 1], Dict [(KStr ''a'', VRef 2)]]
     (Some (VRef 3)) = Inr (4, ?H')"
    by code_simp
  have "anywhere ?H' 4 4" by (rule any_root)
  then have "anywhere ?H' 4 5"
    by (rule any_value [where kvs = "[(KStr ''a'', VRef 5)]"]) simp_all
  then have "anywhere ?H' 4 1"
    by (rule any_element [where xs = "[VRef 1]"]) simp_all
  then have "anywhere ?H' 4 0"
    by (rule any_element [where xs = "[VRef 0]"]) simp_all
  with run show ?thesis by simp
qed

section \<open>Closed objects\<close>

lemma obj_clean_closed: "obj_clean n0 h ob \<Longrightarrow> obj_closed n0 h ob"
  by (cases ob) (auto simp add: list_all_iff val_clean_def elem_clean_def)

lemma clean_from_closed: "clean_from n0 h \<Longrightarrow> closed_above n0 n0 h"
  by (simp add: clean_from_def closed_above_def obj_clean_closed)

lemma obj_closed_keep:
  assumes "obj_closed n0 h ob" "same_kinds h h'" "n0 \<le> length h"
  shows "obj_closed n0 h' ob"
proof (cases ob)
  case (Settings kvs)
  with assms show ?thesis
    by (auto simp add: list_all_iff intro: elem_clean_keep)
qed (use assms in simp_all)

lemma obj_closed_mono: "obj_closed n0 h ob \<Longrightarrow> m \<le> n0 \<Longrightarrow> obj_closed m h ob"
  by (cases ob) (auto simp add: list_all_iff intro: elem_clean_mono)

lemma closed_above_grow:
  assumes c: "closed_above n0 lo g" and p: "prefix g g'" and new: "closed_above (length g) (length g) g'"
    and n0: "n0 \<le> length g"
  shows "closed_above n0 lo g'"
  unfolding closed_above_def
proof (intro allI impI)
  fix b assume b: "lo \<le> b \<and> b < length g'"
  show "obj_closed n0 g' (g' ! b)"
  proof (cases "b < length g")
    case True
    with c b have "obj_closed n0 g (g ! b)" by (simp add: closed_above_def)
    from obj_closed_keep [OF this prefix_same_kinds [OF p] n0] prefix_nth [OF p True]
    show ?thesis by simp
  next
    case False
    with new b have "obj_closed (length g) g' (g' ! b)" by (simp add: closed_above_def)
    from obj_closed_mono [OF this n0] show ?thesis .
  qed
qed

lemma closed_above_update:
  assumes c: "closed_above n0 (Suc self) g" and s: "self < length g" "kind (g ! self) = kind ob"
    and n0: "n0 \<le> length g"
  shows "closed_above n0 (Suc self) (g[self := ob])"
  unfolding closed_above_def
proof (intro allI impI)
  fix b assume b: "Suc self \<le> b \<and> b < length (g[self := ob])"
  with c have "obj_closed n0 g (g ! b)" by (simp add: closed_above_def)
  from obj_closed_keep [OF this same_kinds_update [OF s] n0] b
  show "obj_closed n0 (g[self := ob]) (g[self := ob] ! b)" by simp
qed

lemma closed_above_lower:
  "closed_above n0 (Suc lo) g \<Longrightarrow> obj_closed n0 g (g ! lo) \<Longrightarrow> closed_above n0 lo g"
  unfolding closed_above_def by (metis Suc_leI le_neq_implies_less)

lemma nodes_closed:
  assumes c: "closed_above n0 n0 g" and r: "n0 \<le> r" "r < length g" and i: "nodes g r b"
  shows "n0 \<le> b \<and> b < length g"
  using i
proof (induction rule: nodes.induct)
  case node_root
  from r show ?case by simp
next
  case (node_child b kvs c')
  from node_child.IH c have oc: "obj_closed n0 g (g ! b)" by (simp add: closed_above_def)
  from node_child.hyps(4) obtain k where "(k, VRef c') \<in> set kvs" by auto
  with oc node_child.hyps(3) have "elem_clean n0 g (VRef c')" by (auto simp add: list_all_iff)
  with node_child.hyps(5) show ?case
    by (auto simp add: elem_clean_def val_new_def isinstance_dict_def isinstance_Settings_def
        split: obj.splits)
qed

section \<open>A loop with the rounds done so far\<close>

lemma for_each_done:
  assumes "for_each f xs h = Inr h'" and "I ys h"
    and "\<And>zs x rest g g'. ys @ xs = zs @ x # rest \<Longrightarrow> I zs g \<Longrightarrow> f x g = Inr g' \<Longrightarrow> I (zs @ [x]) g'"
  shows "I (ys @ xs) h'"
  using assms
proof (induction xs arbitrary: ys h)
  case Nil
  then show ?case by simp
next
  case (Cons x xs)
  from Cons.prems(1) obtain g where g: "f x h = Inr g" "for_each f xs g = Inr h'"
    by (auto split: sum.splits)
  have Ig: "I (ys @ [x]) g" using Cons.prems(2) g(1) by (intro Cons.prems(3) [of ys x xs h g]) auto
  have "I ((ys @ [x]) @ xs) h'"
  proof (rule Cons.IH [OF g(2) Ig])
    fix zs y rest k k'
    assume "(ys @ [x]) @ xs = zs @ y # rest" "I zs k" "f y k = Inr k'"
    then show "I (zs @ [y]) k'" by (intro Cons.prems(3) [of zs y rest k k']) auto
  qed
  then show ?case by simp
qed

section \<open>copy leaves closed objects\<close>

lemma copy_invD:
  assumes "copy_inv h kvs ns g"
  obtains ents where "building h (length h) g" "heap_ok g"
    "closed_above (length h) (Suc (length h)) g" "g ! length h = Settings ents"
    "map fst ents = ns" "list_all (\<lambda>(k, v'). \<exists>v. dict_get kvs k = Some v \<and> copied h g v v') ents"
    "length h < length g" "prefix h g"
    "list_all (\<lambda>(k, v'). elem_clean (length h) g v') ents"
  using assms by (auto simp add: copy_inv_def building_def)

lemma copied_keep: "copied h g v v' \<Longrightarrow> same_kinds g g' \<Longrightarrow> copied h g' v v'"
  by (auto simp add: copied_def intro: same_kinds_Settings_keep)

lemma wrap_closed:
  assumes ok: "heap_ok g" and ca: "closed_above n0 lo g" and n0: "n0 \<le> length g"
    and w: "wrap (Settings_init n) g x = Inr (y, g')"
  shows "prefix g g' \<and> heap_ok g' \<and> closed_above n0 lo g' \<and>
    (y = x \<and> \<not> isinstance_dict g x \<and> g' = g \<or>
     isinstance_dict g x \<and> val_new (length g) y \<and> isinstance_Settings g' y)"
  using w
proof (cases rule: wrap_cases)
  case keep
  with ok ca show ?thesis by simp
next
  case (new s)
  from Settings_init_frame [OF new(2)] have s: "s = length g" "prefix g g'" "s < length g'"
    "\<exists>kvs. g' ! s = Settings kvs" by blast+
  from Settings_init_cleanD [OF ok new(2)] have c: "heap_ok g'" "clean_from (length g) g'" by simp_all
  from closed_above_grow [OF ca s(2) clean_from_closed [OF c(2)] n0] have "closed_above n0 lo g'" .
  moreover have "isinstance_Settings g' y" using s new(3) by (auto simp add: isinstance_Settings_def)
  ultimately show ?thesis using s c new(1,3) by (simp add: val_new_def)
qed

lemma isinstance_dict_prefix:
  "prefix h g \<Longrightarrow> isinstance_dict g (VRef c) \<Longrightarrow> c < length h \<Longrightarrow> isinstance_dict h (VRef c)"
  by (simp add: isinstance_dict_def prefix_nth)

lemma isinstance_Settings_dict: "isinstance_Settings h v \<Longrightarrow> isinstance_dict h v"
  by (auto simp add: isinstance_Settings_def isinstance_dict_def split: val.splits obj.splits)

text \<open>Assigning to the copy, under a name it does not have yet, the value read or its copy.\<close>

lemma copy_assign:
  assumes inv: "copy_inv h kvs ns g" and new: "name \<notin> set ns" and nig: "\<not> is_ig name"
    and v: "dict_get kvs name = Some v"
    and w: "w = v \<or> val_new (length h) w \<and> isinstance_Settings g w \<and> isinstance_Settings g v"
    and s: "setitem n g (length h) name w = Inr g'"
  shows "copy_inv h kvs (ns @ [name]) g'"
proof -
  let ?n = "length h"
  from inv obtain ents where b: "building h ?n g" and ok: "heap_ok g"
    and ca: "closed_above ?n (Suc ?n) g" and at: "g ! ?n = Settings ents"
    and keys: "map fst ents = ns"
    and old: "list_all (\<lambda>(k, v'). \<exists>v. dict_get kvs k = Some v \<and> copied h g v v') ents"
    and lg: "?n < length g" and ph: "prefix h g"
    and cl: "list_all (\<lambda>(k, v'). elem_clean (length h) g v') ents"
    by (rule copy_invD)
  from heap_ok_nth [OF ok lg] at have eok: "keys_ok ents" by simp
  from Settings_init_grows s [unfolded setitem_def]
  obtain ents' k' w' g1 where *: "items_of g ?n = Inr ents'" "resolve ents' name = Inr k'"
    "wrap (Settings_init n) g w = Inr (w', g1)" "prefix g g1"
    "g' = g1[?n := Settings (dict_set ents' k' w')]"
    by (rule setitem_with_shape)
  from *(1) at have [simp]: "ents' = ents" by (simp add: items_of_Inr)
  from *(2) nig have [simp]: "k' = name" by (simp add: resolve_not_ig)
  have "name \<notin> fst ` set ents" using new keys by (metis set_map)
  then have "dict_get ents name = None"
    using dict_get_map_of [OF eok nig] by (simp add: map_of_eq_None_iff)
  from dict_set_absent [OF this] have ds: "dict_set ents name w' = ents @ [(name, w')]" .
  from wrap_closed [OF ok ca _ *(3)] lg
  have wc: "heap_ok g1" "closed_above ?n (Suc ?n) g1"
    "w' = w \<and> \<not> isinstance_dict g w \<and> g1 = g \<or>
     isinstance_dict g w \<and> val_new (length g) w' \<and> isinstance_Settings g1 w'"
    by simp_all
  have l1: "?n < length g1" using lg prefix_length [OF *(4)] by simp
  have at1: "g1 ! ?n = Settings ents" using prefix_nth [OF *(4) lg] at by simp
  let ?new = "Settings (ents @ [(name, w')])"
  have g': "g' = g1[?n := ?new]" using *(5) ds by simp
  have sk1: "same_kinds g1 g'" unfolding g' using l1 at1 by (intro same_kinds_update) simp_all
  have sk: "same_kinds g g'" using prefix_same_kinds [OF *(4)] sk1 by (rule same_kinds_trans)
  have b': "building h ?n g'" using b s by (rule setitem_building)
  have ok': "heap_ok g'" unfolding g'
  proof (rule heap_ok_update [OF wc(1)])
    show "obj_ok ?new" using eok new keys nig by (auto simp add: keys_ok_def)
  qed
  have ca': "closed_above ?n (Suc ?n) g'" unfolding g'
    using wc(2) l1 at1 by (intro closed_above_update) simp_all
  have at': "g' ! ?n = ?new" unfolding g' using l1 by simp
  have cw: "copied h g' v w'"
  proof (cases "w' = w \<and> \<not> isinstance_dict g w \<and> g1 = g")
    case True
    with w isinstance_Settings_dict [of g w] have "w' = v" "\<not> isinstance_dict g v" by auto
    moreover from this same_kinds_dict_keep [OF prefix_same_kinds [OF ph], of v]
    have "\<not> isinstance_dict h v" by auto
    ultimately show ?thesis by (simp add: copied_def)
  next
    case False
    with wc(3) have n: "val_new (length g) w'" "isinstance_Settings g1 w'" "isinstance_dict g w" by auto
    from n(1) lg have 1: "val_new ?n w'" by (auto intro: val_new_mono)
    from same_kinds_Settings_keep [OF sk1 n(2)] have 2: "isinstance_Settings g' w'" .
    have gv: "isinstance_dict g v" using w n(3) isinstance_Settings_dict [of g v] by auto
    show ?thesis
    proof (cases "isinstance_dict h v")
      case True
      with 1 2 show ?thesis by (simp add: copied_def)
    next
      case False
      have "\<not> (\<forall>c. v = VRef c \<longrightarrow> c < length h)"
      proof
        assume r: "\<forall>c. v = VRef c \<longrightarrow> c < length h"
        from gv obtain c where c: "v = VRef c" by (cases v) (simp_all add: isinstance_dict_def)
        with r gv isinstance_dict_prefix [OF ph] have "isinstance_dict h v" by simp
        with False show False by simp
      qed
      with False show ?thesis unfolding copied_def by auto
    qed
  qed
  have "list_all (\<lambda>(k, v'). \<exists>v. dict_get kvs k = Some v \<and> copied h g' v v') (ents @ [(name, w')])"
    using old v cw copied_keep [OF _ sk] by (auto simp add: list_all_iff)
  moreover have "list_all (\<lambda>(k, v'). elem_clean ?n g' v') (ents @ [(name, w')])"
  proof -
    have "elem_clean ?n g w'"
      using wc(3) lg by (auto simp add: elem_clean_def intro: val_new_mono)
    with cl have "list_all (\<lambda>(k, v'). elem_clean ?n g v') (ents @ [(name, w')])" by simp
    then show ?thesis using elem_clean_keep [OF _ sk, of ?n] lg by (auto simp add: list_all_iff)
  qed
  ultimately show ?thesis using b' ok' ca' at' keys unfolding copy_inv_def by auto
qed

lemma copy_inv_grow:
  assumes inv: "copy_inv h kvs ns g" and p: "prefix g g1" and ok: "heap_ok g1"
    and new: "closed_above (length h) (Suc (length h)) g1"
  shows "copy_inv h kvs ns g1"
proof -
  let ?n = "length h"
  from inv obtain ents where b: "building h ?n g"
    and at: "g ! ?n = Settings ents" and keys: "map fst ents = ns"
    and old: "list_all (\<lambda>(k, v'). \<exists>v. dict_get kvs k = Some v \<and> copied h g v v') ents"
    and lg: "?n < length g"
    and cl: "list_all (\<lambda>(k, v'). elem_clean (length h) g v') ents"
    by (rule copy_invD)
  have "list_all (\<lambda>(k, v'). \<exists>v. dict_get kvs k = Some v \<and> copied h g1 v v') ents"
    using old copied_keep [OF _ prefix_same_kinds [OF p]] by (auto simp add: list_all_iff)
  moreover have "list_all (\<lambda>(k, v'). elem_clean ?n g1 v') ents"
    using cl elem_clean_keep [OF _ prefix_same_kinds [OF p], of ?n] lg by (auto simp add: list_all_iff)
  moreover have "g1 ! ?n = Settings ents" using prefix_nth [OF p lg] at by simp
  ultimately show ?thesis
    using building_grow [OF b p] ok new keys unfolding copy_inv_def by blast
qed

lemma copy_item_closed:
  assumes rg: "copy_grows rec" and rc: "copy_closed rec"
    and inv: "copy_inv h kvs ns g" and l: "self < length h" and i: "items_of h self = Inr kvs"
    and k0: "keys_ok kvs" and name: "name \<in> fst ` set kvs" and new: "name \<notin> set ns"
    and s: "copy_item n rec self (length h) name g = Inr g'"
  shows "copy_inv h kvs (ns @ [name]) g'"
proof -
  let ?n = "length h"
  from inv have ok: "heap_ok g" and ca: "closed_above ?n (Suc ?n) g" and lg: "?n < length g"
    and p: "prefix h g" by (auto elim: copy_invD)
  from keys_ok_not_ig [OF k0 name] have nig: "\<not> is_ig name" .
  from prefix_items_of [OF p l] i have ig: "items_of g self = Inr kvs" by simp
  from s obtain v g1 where g1: "getitem n g self name = Inr (v, g1)"
    by (auto simp add: copy_item_def ebind_eq_Inr)
  from getitem_of_key [OF g1 ig name] have [simp]: "g1 = g" .
  from g1 have v: "dict_get kvs name = Some v"
  proof (cases rule: getitem_cases)
    case (present kvs' k')
    with ig nig show ?thesis by (simp add: resolve_not_ig)
  next
    case (missing kvs' k')
    from arg_cong [OF missing(5), of length] have "length g = length g + 2" by simp
    then show ?thesis by simp
  qed
  from s g1 obtain v2 g2 where g2: "getitem n g self name = Inr (v2, g2)"
    by (auto simp add: copy_item_def ebind_eq_Inr split: if_splits)
  with g1 have [simp]: "v2 = v" "g2 = g" by simp_all
  show ?thesis
  proof (cases "isinstance_Settings g v")
    case False
    with s g1 have "setitem n g ?n name v = Inr g'"
      by (simp add: copy_item_def)
    from copy_assign [OF inv new nig v _ this] show ?thesis by simp
  next
    case True
    with s g1 obtain c g3 where c: "(case v of VRef a \<Rightarrow> rec g a | _ \<Rightarrow> Inl AttributeError) = Inr (c, g3)"
      "setitem n g3 ?n name (VRef c) = Inr g'"
      by (auto simp add: copy_item_def ebind_eq_Inr)
    from c(1) obtain a where a: "rec g a = Inr (c, g3)" by (cases v) simp_all
    from rg a have f: "c = length g" "prefix g g3" "c < length g3" "\<exists>kvs. g3 ! c = Settings kvs"
      unfolding copy_grows_def by blast+
    from rc ok a have cl: "heap_ok g3" "closed_above (length g) (length g) g3"
      unfolding copy_closed_def by blast+
    from closed_above_grow [OF ca f(2) cl(2)] lg have "closed_above ?n (Suc ?n) g3" by simp
    from copy_inv_grow [OF inv f(2) cl(1) this] have inv3: "copy_inv h kvs ns g3" .
    have "val_new ?n (VRef c)" using f(1) lg by (simp add: val_new_def)
    moreover have "isinstance_Settings g3 (VRef c)" using f by (auto simp add: isinstance_Settings_def)
    moreover have "isinstance_Settings g3 v"
      using True prefix_same_kinds [OF f(2)] by (rule same_kinds_Settings_keep [rotated])
    ultimately show ?thesis using copy_assign [OF inv3 new nig v _ c(2)] by simp
  qed
qed

lemma copy_run:
  assumes rg: "copy_grows (copy n)" and rc: "copy_closed (copy n)" and ok: "heap_ok h"
    and l: "self < length h" and i: "items_of h self = Inr kvs"
    and c: "copy (Suc n) h self = Inr (r, h')"
  shows "copy_inv h kvs (iter kvs) h'"
proof -
  from c obtain ret h0 kvs' where
    init: "Settings_init n h None = Inr (ret, h0)"
    and i0: "items_of h0 self = Inr kvs'"
    and loop: "for_each (copy_item n (copy n) self ret) (iter kvs') h0 = Inr h'"
    by (auto simp add: copy.simps(2) ebind_eq_Inr)
  from Settings_init_None_eq [OF init] have ret: "ret = length h" "h0 = h @ [Settings []]"
    by simp_all
  from i0 i l ret have [simp]: "kvs' = kvs" by (simp add: items_of_def nth_append)
  from heap_ok_nth [OF ok l] i have k0: "keys_ok kvs" by (simp add: items_of_Inr)
  have d: "distinct (iter kvs)"
    using k0 mset_iter [of kvs] by (metis distinct_map keys_ok_def mset_eq_imp_distinct_iff)
  have inv0: "copy_inv h kvs [] h0"
    using ok ret by (auto simp add: copy_inv_def building_def heap_ok_append closed_above_def keys_ok_def)
  from loop inv0 have "copy_inv h kvs ([] @ iter kvs) h'" unfolding ret(1) \<open>kvs' = kvs\<close>
  proof (rule for_each_done)
    fix zs x rest g g'
    assume split: "[] @ iter kvs = zs @ x # rest" and inv: "copy_inv h kvs zs g"
      and step: "copy_item n (copy n) self (length h) x g = Inr g'"
    from split d have "x \<notin> set zs" by (metis append_Nil distinct_append distinct.simps(2) disjoint_iff list.set_intros(1))
    moreover from split have "x \<in> set (iter kvs)" by (metis append_Nil in_set_conv_decomp)
    then have "x \<in> fst ` set kvs" by (simp add: set_iter)
    ultimately show "copy_inv h kvs (zs @ [x]) g'"
      using copy_item_closed [OF rg rc inv l i k0 _ _ step] by simp
  qed
  then show ?thesis by simp
qed


lemma copy_inv_closed:
  assumes "copy_inv h kvs ns g"
  shows "heap_ok g \<and> closed_above (length h) (length h) g"
proof -
  from assms obtain ents where "heap_ok g" "closed_above (length h) (Suc (length h)) g"
    "g ! length h = Settings ents" "list_all (\<lambda>(k, v'). elem_clean (length h) g v') ents"
    by (rule copy_invD)
  then show ?thesis using closed_above_lower [of "length h" "length h" g] by simp
qed

lemma copy_closed: "copy_closed (copy n)"
proof (induction n)
  case 0
  show ?case by (simp add: copy_closed_def)
next
  case (Suc n)
  show ?case unfolding copy_closed_def
  proof (intro allI impI)
    fix g a c g'
    assume "heap_ok g \<and> copy (Suc n) g a = Inr (c, g')"
    then have ok: "heap_ok g" and c: "copy (Suc n) g a = Inr (c, g')" by simp_all
    from c obtain ret h0 kvs where init: "Settings_init n g None = Inr (ret, h0)"
      and i: "items_of h0 a = Inr kvs"
      and loop: "for_each (copy_item n (copy n) a ret) (iter kvs) h0 = Inr g'"
      by (auto simp add: copy.simps(2) ebind_eq_Inr)
    from Settings_init_None_eq [OF init] have ret: "ret = length g" "h0 = g @ [Settings []]"
      by simp_all
    show "heap_ok g' \<and> closed_above (length g) (length g) g'"
    proof (cases "a < length g")
      case True
      with i ret have "items_of g a = Inr kvs" by (simp add: items_of_def nth_append)
      from copy_run [OF copy_grows Suc ok True this c] show ?thesis by (rule copy_inv_closed)
    next
      case False
      with i ret have "kvs = []" by (auto simp add: items_of_Inr nth_append less_Suc_eq)
      with loop have "g' = h0" by (simp add: iter_def sorted_native_def)
      with ret ok show ?thesis
        by (auto simp add: heap_ok_append keys_ok_def closed_above_def nth_append less_Suc_eq)
    qed
  qed
qed

text \<open>What a copy is.\<close>

lemma copy_result:
  assumes ok: "heap_ok h" and i: "items_of h self = Inr kvs" and c: "copy n h self = Inr (r, h')"
  shows "r = length h" and "prefix h h'" and "heap_ok h'"
    and "closed_above (length h) (length h) h'"
    and "\<exists>ents. items_of h' r = Inr ents \<and> map fst ents = iter kvs \<and>
           list_all (\<lambda>(k, v'). \<exists>v. dict_get kvs k = Some v \<and> copied h h' v v') ents"
proof -
  from copy_frame [OF c] show r: "r = length h" and p: "prefix h h'" by simp_all
  from copy_frame [OF c] have lr: "r < length h'" by simp
  from i have l: "self < length h" by (simp add: items_of_Inr)
  from c obtain m where n: "n = Suc m" by (cases n) simp_all
  from copy_run [OF copy_grows copy_closed ok l i c [unfolded n]]
  have inv: "copy_inv h kvs (iter kvs) h'" .
  from copy_inv_closed [OF inv] show "heap_ok h'" "closed_above (length h) (length h) h'"
    by simp_all
  from inv obtain ents where "h' ! length h = Settings ents" "map fst ents = iter kvs"
    "list_all (\<lambda>(k, v'). \<exists>v. dict_get kvs k = Some v \<and> copied h h' v v') ents"
    by (rule copy_invD)
  with r lr show "\<exists>ents. items_of h' r = Inr ents \<and> map fst ents = iter kvs \<and>
           list_all (\<lambda>(k, v'). \<exists>v. dict_get kvs k = Some v \<and> copied h h' v v') ents"
    by (simp add: items_of_Inr)
qed

section \<open>A later assignment leaves the copy alone\<close>

lemma setitem_same_kinds:
  assumes "setitem n h self name v = Inr h'"
  shows "same_kinds h h'"
proof -
  from Settings_init_grows assms [unfolded setitem_def]
  obtain kvs k v' h1 where *: "items_of h self = Inr kvs" "prefix h h1" "self < length h"
    "h' = h1[self := Settings (dict_set kvs k v')]"
    by (rule setitem_with_shape)
  from *(1) have "h ! self = Settings kvs" by (simp add: items_of_Inr)
  with prefix_nth [OF *(2,3)] have "kind (h1 ! self) = kind (Settings (dict_set kvs k v'))" by simp
  with *(3) prefix_length [OF *(2)] have "same_kinds h1 h'"
    unfolding *(4) by (intro same_kinds_update) simp_all
  with prefix_same_kinds [OF *(2)] show ?thesis by (rule same_kinds_trans)
qed

lemma nodes_kept:
  assumes sk: "same_kinds h g" and eq: "\<And>b. nodes h r b \<Longrightarrow> b < length h \<and> g ! b = h ! b"
    and n: "nodes h r b"
  shows "nodes g r b"
  using n
proof (induction rule: nodes.induct)
  case node_root
  show ?case by (rule nodes.node_root)
next
  case (node_child b kvs c)
  from eq [OF node_child.hyps(1)] node_child.hyps(3) sk
  have "b < length g" "g ! b = Settings kvs" by (auto simp add: same_kinds_def)
  with node_child.IH node_child.hyps(4) same_kinds_Settings_keep [OF sk node_child.hyps(5)]
  show ?case by (intro nodes.node_child [of g r b kvs c])
qed

lemma copy_example_nested:
  "ebind (copy (Suc (Suc (Suc m))) [Settings [(KStr ''x'', VRef 1)], Settings [(KStr ''y'', VInt 1)]] 0)
     (\<lambda>(c, h1).
   ebind (set_nested (Suc (Suc (Suc m))) h1 (VRef 0) [KStr ''x'', KStr ''y''] (VInt 2)) (\<lambda>h2.
   ebind (get_nested (Suc (Suc (Suc m))) h2 (VRef c) [KStr ''x'', KStr ''y'']) (\<lambda>(v, h3).
   ebind (get_nested (Suc (Suc (Suc m))) h3 (VRef 0) [KStr ''x'', KStr ''y'']) (\<lambda>(w, h4).
   Inr (v, w, h4))))) =
   Inr (VInt 1, VInt 2,
     [Settings [(KStr ''x'', VRef 1)], Settings [(KStr ''y'', VInt 2)],
      Settings [(KStr ''x'', VRef 4)], Settings [(KStr ''y'', VInt 1)],
      Settings [(KStr ''y'', VInt 1)]])"
  by (simp add: copy.simps(2) copy_item_def subscript_def getitem.simps(2) Settings_init.simps(2)
      set_nested_def store_def dict_init_def init_item_def
      setitem_def setitem_with_def wrap_def iter_def sorted_native_def items_of_def
      isinstance_Settings_def isinstance_dict_def isinstance_list_def key_eq_def alloc_def)

lemma copy_example_list:
  "ebind (copy (Suc (Suc (Suc m))) [Settings [(KStr ''b'', VRef 1)], PyList [VInt 1]] 0) (\<lambda>(c, h1).
   ebind (get_nested (Suc (Suc (Suc m))) h1 (VRef 0) [KStr ''b'']) (\<lambda>(l, h2).
   ebind (list_append h2 l (VInt 3)) (\<lambda>h3.
   ebind (get_nested (Suc (Suc (Suc m))) h3 (VRef c) [KStr ''b'', KInt 1]) (\<lambda>(v, h4).
   ebind (get_nested (Suc (Suc (Suc m))) h4 (VRef 0) [KStr ''b'', KInt 1]) (\<lambda>(w, h5).
   Inr (v, w, h5)))))) =
   Inr (VInt 3, VInt 3,
     [Settings [(KStr ''b'', VRef 1)], PyList [VInt 1, VInt 3], Settings [(KStr ''b'', VRef 1)]])"
  by (simp add: copy.simps(2) copy_item_def subscript_def getitem.simps(2) Settings_init.simps(2)
      list_append_def py_index_def dict_init_def init_item_def
      setitem_def setitem_with_def wrap_def iter_def sorted_native_def items_of_def
      isinstance_Settings_def isinstance_dict_def isinstance_list_def key_eq_def alloc_def)

text \<open>
  C4 (amended): in a heap whose dictionaries have no \<^verbatim>\<open>ig\<close> keys, whenever \<^verbatim>\<open>copy\<close> returns, it
  returns a new node and the objects there were are as they were. The new node has the keys
  of the receiver; under each of them it holds a new node if the receiver holds a mapping
  there, and the receiver's value itself (for a list: the same list) if not. Every node of
  the copy's skeleton (the copy, and the nodes that are values of its nodes, at any depth) is
  a new object, so an assignment made afterwards to a key of any node that existed before
  leaves every node of the skeleton with the entries it had. With S.x.y = 1 and C = S.copy(),
  setting S.x.y = 2 leaves C.x.y == 1; a list that is a value of S itself is shared, an
  element appended to it is read through both.
\<close>

theorem copy_new_skeleton:
  "(heap_ok h \<and> items_of h self = Inr kvs \<and> copy n h self = Inr (r, h') \<longrightarrow>
      r = length h \<and> prefix h h' \<and>
      (\<exists>ents. items_of h' r = Inr ents \<and> map fst ents = iter kvs \<and>
         list_all (\<lambda>(k, v'). \<exists>v. dict_get kvs k = Some v \<and> copied h h' v v') ents) \<and>
      (\<forall>b. nodes h' r b \<longrightarrow> length h \<le> b \<and> b < length h') \<and>
      (\<forall>m a name w g b. a < length h \<and> setitem m h' a name w = Inr g \<and> nodes h' r b \<longrightarrow>
         g ! b = h' ! b \<and> nodes g r b)) \<and>
   ebind (copy (Suc (Suc (Suc m))) [Settings [(KStr ''x'', VRef 1)], Settings [(KStr ''y'', VInt 1)]] 0)
     (\<lambda>(c, h1).
   ebind (set_nested (Suc (Suc (Suc m))) h1 (VRef 0) [KStr ''x'', KStr ''y''] (VInt 2)) (\<lambda>h2.
   ebind (get_nested (Suc (Suc (Suc m))) h2 (VRef c) [KStr ''x'', KStr ''y'']) (\<lambda>(v, h3).
   ebind (get_nested (Suc (Suc (Suc m))) h3 (VRef 0) [KStr ''x'', KStr ''y'']) (\<lambda>(w, h4).
   Inr (v, w, h4))))) =
   Inr (VInt 1, VInt 2,
     [Settings [(KStr ''x'', VRef 1)], Settings [(KStr ''y'', VInt 2)],
      Settings [(KStr ''x'', VRef 4)], Settings [(KStr ''y'', VInt 1)],
      Settings [(KStr ''y'', VInt 1)]]) \<and>
   ebind (copy (Suc (Suc (Suc m))) [Settings [(KStr ''b'', VRef 1)], PyList [VInt 1]] 0) (\<lambda>(c, h1).
   ebind (get_nested (Suc (Suc (Suc m))) h1 (VRef 0) [KStr ''b'']) (\<lambda>(l, h2).
   ebind (list_append h2 l (VInt 3)) (\<lambda>h3.
   ebind (get_nested (Suc (Suc (Suc m))) h3 (VRef c) [KStr ''b'', KInt 1]) (\<lambda>(v, h4).
   ebind (get_nested (Suc (Suc (Suc m))) h4 (VRef 0) [KStr ''b'', KInt 1]) (\<lambda>(w, h5).
   Inr (v, w, h5)))))) =
   Inr (VInt 3, VInt 3,
     [Settings [(KStr ''b'', VRef 1)], PyList [VInt 1, VInt 3], Settings [(KStr ''b'', VRef 1)]])"
proof (intro conjI impI)
  assume "heap_ok h \<and> items_of h self = Inr kvs \<and> copy n h self = Inr (r, h')"
  then have ok: "heap_ok h" and i: "items_of h self = Inr kvs" and c: "copy n h self = Inr (r, h')"
    by simp_all
  note res = copy_result [OF ok i c]
  from res(1) show "r = length h" .
  from res(2) show "prefix h h'" .
  from res(5) show "\<exists>ents. items_of h' r = Inr ents \<and> map fst ents = iter kvs \<and>
         list_all (\<lambda>(k, v'). \<exists>v. dict_get kvs k = Some v \<and> copied h h' v v') ents" .
  from copy_frame [OF c] have lr: "length h \<le> r" "r < length h'" by simp_all
  have new: "length h \<le> b \<and> b < length h'" if "nodes h' r b" for b
    using res(4) lr that by (rule nodes_closed)
  then show "\<forall>b. nodes h' r b \<longrightarrow> length h \<le> b \<and> b < length h'" by blast
  show "\<forall>m a name w g b. a < length h \<and> setitem m h' a name w = Inr g \<and> nodes h' r b \<longrightarrow>
         g ! b = h' ! b \<and> nodes g r b"
  proof (intro allI impI)
    fix m a name w g b
    assume "a < length h \<and> setitem m h' a name w = Inr g \<and> nodes h' r b"
    then have a: "a < length h" and s: "setitem m h' a name w = Inr g" and b: "nodes h' r b"
      by simp_all
    have eq: "d < length h' \<and> g ! d = h' ! d" if "nodes h' r d" for d
      using new [OF that] a setitem_other [OF s, of d] by simp
    from nodes_kept [OF setitem_same_kinds [OF s] eq b] eq [OF b]
    show "g ! b = h' ! b \<and> nodes g r b" by simp
  qed
next
  show "ebind (copy (Suc (Suc (Suc m))) [Settings [(KStr ''x'', VRef 1)], Settings [(KStr ''y'', VInt 1)]] 0)
     (\<lambda>(c, h1).
   ebind (set_nested (Suc (Suc (Suc m))) h1 (VRef 0) [KStr ''x'', KStr ''y''] (VInt 2)) (\<lambda>h2.
   ebind (get_nested (Suc (Suc (Suc m))) h2 (VRef c) [KStr ''x'', KStr ''y'']) (\<lambda>(v, h3).
   ebind (get_nested (Suc (Suc (Suc m))) h3 (VRef 0) [KStr ''x'', KStr ''y'']) (\<lambda>(w, h4).
   Inr (v, w, h4))))) =
   Inr (VInt 1, VInt 2,
     [Settings [(KStr ''x'', VRef 1)], Settings [(KStr ''y'', VInt 2)],
      Settings [(KStr ''x'', VRef 4)], Settings [(KStr ''y'', VInt 1)],
      Settings [(KStr ''y'', VInt 1)]])"
    by (rule copy_example_nested)
next
  show "ebind (copy (Suc (Suc (Suc m))) [Settings [(KStr ''b'', VRef 1)], PyList [VInt 1]] 0) (\<lambda>(c, h1).
   ebind (get_nested (Suc (Suc (Suc m))) h1 (VRef 0) [KStr ''b'']) (\<lambda>(l, h2).
   ebind (list_append h2 l (VInt 3)) (\<lambda>h3.
   ebind (get_nested (Suc (Suc (Suc m))) h3 (VRef c) [KStr ''b'', KInt 1]) (\<lambda>(v, h4).
   ebind (get_nested (Suc (Suc (Suc m))) h4 (VRef 0) [KStr ''b'', KInt 1]) (\<lambda>(w, h5).
   Inr (v, w, h5)))))) =
   Inr (VInt 3, VInt 3,
     [Settings [(KStr ''b'', VRef 1)], PyList [VInt 1, VInt 3], Settings [(KStr ''b'', VRef 1)]])"
    by (rule copy_example_list)
qed

theorem copy_new_skeleton_witness:
  "heap_ok [Settings [(KStr ''x'', VRef 1), (KStr ''b'', VRef 2)], Settings [(KStr ''y'', VInt 1)],
      PyList [VInt 1]] \<and>
   copy 3 [Settings [(KStr ''x'', VRef 1), (KStr ''b'', VRef 2)], Settings [(KStr ''y'', VInt 1)],
      PyList [VInt 1]] 0 =
   Inr (3,
     [Settings [(KStr ''x'', VRef 1), (KStr ''b'', VRef 2)], Settings [(KStr ''y'', VInt 1)],
      PyList [VInt 1],
      Settings [(KStr ''b'', VRef 2), (KStr ''x'', VRef 5)], Settings [(KStr ''y'', VInt 1)],
      Settings [(KStr ''y'', VInt 1)]]) \<and>
   setitem 3
     [Settings [(KStr ''x'', VRef 1), (KStr ''b'', VRef 2)], Settings [(KStr ''y'', VInt 1)],
      PyList [VInt 1],
      Settings [(KStr ''b'', VRef 2), (KStr ''x'', VRef 5)], Settings [(KStr ''y'', VInt 1)],
      Settings [(KStr ''y'', VInt 1)]] 1 (KStr ''y'') (VInt 2) =
   Inr
     [Settings [(KStr ''x'', VRef 1), (KStr ''b'', VRef 2)], Settings [(KStr ''y'', VInt 2)],
      PyList [VInt 1],
      Settings [(KStr ''b'', VRef 2), (KStr ''x'', VRef 5)], Settings [(KStr ''y'', VInt 1)],
      Settings [(KStr ''y'', VInt 1)]] \<and>
   nodes
     [Settings [(KStr ''x'', VRef 1), (KStr ''b'', VRef 2)], Settings [(KStr ''y'', VInt 2)],
      PyList [VInt 1],
      Settings [(KStr ''b'', VRef 2), (KStr ''x'', VRef 5)], Settings [(KStr ''y'', VInt 1)],
      Settings [(KStr ''y'', VInt 1)]] 3 3"
proof -
  let ?H = "[Settings [(KStr ''x'', VRef 1), (KStr ''b'', VRef 2)], Settings [(KStr ''y'', VInt 1)],
      PyList [VInt 1]]"
  let ?H' = "[Settings [(KStr ''x'', VRef 1), (KStr ''b'', VRef 2)], Settings [(KStr ''y'', VInt 1)],
      PyList [VInt 1],
      Settings [(KStr ''b'', VRef 2), (KStr ''x'', VRef 5)], Settings [(KStr ''y'', VInt 1)],
      Settings [(KStr ''y'', VInt 1)]]"
  let ?G = "[Settings [(KStr ''x'', VRef 1), (KStr ''b'', VRef 2)], Settings [(KStr ''y'', VInt 2)],
      PyList [VInt 1],
      Settings [(KStr ''b'', VRef 2), (KStr ''x'', VRef 5)], Settings [(KStr ''y'', VInt 1)],
      Settings [(KStr ''y'', VInt 1)]]"
  have ok: "heap_ok ?H" by code_simp
  have i: "items_of ?H 0 = Inr [(KStr ''x'', VRef 1), (KStr ''b'', VRef 2)]" by code_simp
  have run: "copy 3 ?H 0 = Inr (3, ?H')" by code_simp
  have set: "setitem 3 ?H' 1 (KStr ''y'') (VInt 2) = Inr ?G" by code_simp
  have root: "nodes ?H' 3 3" by (rule nodes.node_root)
  have l: "(1::nat) < length ?H" by simp
  from copy_new_skeleton [of ?H 0 "[(KStr ''x'', VRef 1), (KStr ''b'', VRef 2)]" 3 3 ?H' 0]
    ok i run
  have "\<forall>m a name w g b. a < length ?H \<and> setitem m ?H' a name w = Inr g \<and> nodes ?H' 3 b \<longrightarrow>
         g ! b = ?H' ! b \<and> nodes g 3 b"
    by blast
  with l set root have "nodes ?G 3 3" by blast
  show ?thesis by (intro conjI) (rule ok, rule run, rule set, rule \<open>nodes ?G 3 3\<close>)
qed

text \<open>
  C4 as stated fails: with S = {l: [N]} and N = {y: 1} a node, the copy at address 3 holds
  under \<^verbatim>\<open>l\<close> the list of S itself, so the node in it is N, not a copy: after
  \<^verbatim>\<open>S.l[0].y = 2\<close> the copy reads 2 at \<^verbatim>\<open>C.l[0].y\<close>.
\<close>

theorem node_in_list_shared_counterexample:
  "copy 3 [Settings [(KStr ''l'', VRef 1)], PyList [VRef 2], Settings [(KStr ''y'', VInt 1)]] 0 =
   Inr (3, [Settings [(KStr ''l'', VRef 1)], PyList [VRef 2], Settings [(KStr ''y'', VInt 1)],
            Settings [(KStr ''l'', VRef 1)]]) \<and>
   ebind (copy 3 [Settings [(KStr ''l'', VRef 1)], PyList [VRef 2], Settings [(KStr ''y'', VInt 1)]] 0)
     (\<lambda>(c, h1).
   ebind (set_nested 3 h1 (VRef 0) [KStr ''l'', KInt 0, KStr ''y''] (VInt 2)) (\<lambda>h2.
   ebind (get_nested 3 h2 (VRef c) [KStr ''l'', KInt 0, KStr ''y'']) (\<lambda>(v, h3). Inr (v, h3)))) =
   Inr (VInt 2,
      [Settings [(KStr ''l'', VRef 1)], PyList [VRef 2],
       Settings [(KStr ''y'', VInt 2)], Settings [(KStr ''l'', VRef 1)]])"
  by code_simp

end
